theory Spec2Isabelle
  imports Main "HOL-Library.Signed_Division"
begin

section \<open>Data model of \<^verbatim>\<open>main.cc\<close>\<close>

text \<open>
  \<^verbatim>\<open>struct job { int job_id; int duration; };\<close> and
  \<^verbatim>\<open>struct circular_queue { int head; int tail; int array_size; job *data; };\<close>.
  A C \<^verbatim>\<open>int\<close> is a HOL \<open>int\<close>; every operation whose C behaviour is undefined (signed
  overflow, division by zero, an access outside the allocated array) is a branch of the model
  that returns an error value. The array behind \<^verbatim>\<open>data\<close> is the list of its slots.
\<close>

record job =
  job_id :: int
  duration :: int

record circular_queue =
  head :: int
  tail :: int
  array_size :: int
  data :: "job list"

text \<open>The global variables of \<^verbatim>\<open>main.cc\<close> that the queue and the workers use.\<close>

record globals =
  buffer_size :: int
  jobs_per_producer :: int
  number_of_producers :: int
  number_of_consumers :: int
  sem_id :: int
  my_queue :: circular_queue

datatype undefined_behaviour =
    SignedOverflow
  | DivisionByZero
  | OutOfBounds
  | BadArrayLength

definition INT_MAX :: int where
  "INT_MAX = 2147483647"

definition INT_MIN :: int where
  "INT_MIN = - 2147483648"

text \<open>\<^verbatim>\<open>a + b\<close> on \<^verbatim>\<open>int\<close>: undefined when the sum leaves the range of the type.\<close>

definition add_int :: "int \<Rightarrow> int \<Rightarrow> undefined_behaviour + int" where
  "add_int a b = (if a + b < INT_MIN \<or> INT_MAX < a + b then Inl SignedOverflow else Inr (a + b))"

text \<open>\<^verbatim>\<open>a % b\<close> on \<^verbatim>\<open>int\<close>: truncating remainder, undefined for a zero divisor.
  (The one overflowing case, \<^verbatim>\<open>INT_MIN % -1\<close>, is undefined as well.)\<close>

definition rem_int :: "int \<Rightarrow> int \<Rightarrow> undefined_behaviour + int" where
  "rem_int a b =
     (if b = 0 then Inl DivisionByZero
      else if a = INT_MIN \<and> b = - 1 then Inl SignedOverflow
      else Inr (a smod b))"

section \<open>The circular queue\<close>

text \<open>
  \<^verbatim>\<open>initializeQueue\<close>: \<^verbatim>\<open>new job[buffer_size]\<close> leaves the slots uninitialised; their
  indeterminate content is the parameter \<open>raw\<close>. A negative length makes \<^verbatim>\<open>new\<close> throw.
\<close>

definition initializeQueue :: "(nat \<Rightarrow> job) \<Rightarrow> globals \<Rightarrow> undefined_behaviour + globals" where
  "initializeQueue raw g =
     (if buffer_size g < 0 then Inl BadArrayLength
      else Inr (g\<lparr>my_queue :=
             \<lparr>head = 0, tail = 0, array_size = buffer_size g,
              data = map raw [0 ..< nat (buffer_size g)]\<rparr>\<rparr>))"

text \<open>
  \<^verbatim>\<open>my_queue.data[my_queue.tail] = new_job;
  my_queue.tail = ((my_queue.tail + 1) % buffer_size);\<close>
  The modulus is the global \<^verbatim>\<open>buffer_size\<close>, not \<^verbatim>\<open>my_queue.array_size\<close>.
\<close>

definition deposit_item :: "job \<Rightarrow> globals \<Rightarrow> undefined_behaviour + globals" where
  "deposit_item new_job g =
     (let q = my_queue g in
      if tail q < 0 \<or> int (length (data q)) \<le> tail q then Inl OutOfBounds
      else
        (case add_int (tail q) 1 of
           Inl e \<Rightarrow> Inl e
         | Inr t1 \<Rightarrow>
             (case rem_int t1 (buffer_size g) of
                Inl e \<Rightarrow> Inl e
              | Inr t' \<Rightarrow>
                  Inr (g\<lparr>my_queue := q\<lparr>data := (data q)[nat (tail q) := new_job],
                                         tail := t'\<rparr>\<rparr>))))"

text \<open>
  \<^verbatim>\<open>job myJob = my_queue.data[my_queue.head];
  my_queue.head = ((my_queue.head + 1) % buffer_size);
  return myJob;\<close>
\<close>

definition fetch_item :: "globals \<Rightarrow> undefined_behaviour + (job \<times> globals)" where
  "fetch_item g =
     (let q = my_queue g in
      if head q < 0 \<or> int (length (data q)) \<le> head q then Inl OutOfBounds
      else
        (let myJob = data q ! nat (head q) in
         case add_int (head q) 1 of
           Inl e \<Rightarrow> Inl e
         | Inr h1 \<Rightarrow>
             (case rem_int h1 (buffer_size g) of
                Inl e \<Rightarrow> Inl e
              | Inr h' \<Rightarrow> Inr (myJob, g\<lparr>my_queue := q\<lparr>head := h'\<rparr>\<rparr>))))"

section \<open>Sequences of queue operations\<close>

text \<open>
  A finite sequence of \<^verbatim>\<open>deposit_item\<close> and \<^verbatim>\<open>fetch_item\<close> calls, run on the globals in order.
  The run records, for every call, the slot of \<^verbatim>\<open>data\<close> the call accessed (the value of
  \<^verbatim>\<open>tail\<close>, respectively \<^verbatim>\<open>head\<close>, when the call began) and the job written or returned.
  It stops with the error of the first call whose behaviour is undefined.
\<close>


datatype queue_op = Deposit job | Fetch

datatype queue_event = Deposited nat job | Fetched nat job

fun run_ops :: "queue_op list \<Rightarrow> globals \<Rightarrow> undefined_behaviour + (queue_event list \<times> globals)" where
  "run_ops [] g = Inr ([], g)"
| "run_ops (Deposit j # ops) g =
     (case deposit_item j g of
        Inl e \<Rightarrow> Inl e
      | Inr g' \<Rightarrow>
          (case run_ops ops g' of
             Inl e \<Rightarrow> Inl e
           | Inr (evs, g'') \<Rightarrow> Inr (Deposited (nat (tail (my_queue g))) j # evs, g'')))"
| "run_ops (Fetch # ops) g =
     (case fetch_item g of
        Inl e \<Rightarrow> Inl e
      | Inr (j, g') \<Rightarrow>
          (case run_ops ops g' of
             Inl e \<Rightarrow> Inl e
           | Inr (evs, g'') \<Rightarrow> Inr (Fetched (nat (head (my_queue g))) j # evs, g'')))"

fun slot_of :: "queue_event \<Rightarrow> nat" where
  "slot_of (Deposited k j) = k"
| "slot_of (Fetched k j) = k"


definition queue_inv :: "int \<Rightarrow> globals \<Rightarrow> bool" where
  "queue_inv C g \<longleftrightarrow>
     buffer_size g = C \<and> length (data (my_queue g)) = nat C \<and>
     0 \<le> head (my_queue g) \<and> head (my_queue g) < C \<and>
     0 \<le> tail (my_queue g) \<and> tail (my_queue g) < C"

section \<open>The counter protocol and what a run of the queue must not do\<close>

text \<open>
  The counter protocol, in the words of the specification: at every prefix of the sequence the
  number of fetches never exceeds the number of deposits, and the number of deposits never
  exceeds the number of fetches plus the capacity.
\<close>

fun is_deposit :: "queue_op \<Rightarrow> bool" where
  "is_deposit (Deposit j) = True"
| "is_deposit Fetch = False"

definition deposits :: "queue_op list \<Rightarrow> nat" where
  "deposits ops = length (filter is_deposit ops)"

definition fetches :: "queue_op list \<Rightarrow> nat" where
  "fetches ops = length (filter (\<lambda>op. \<not> is_deposit op) ops)"

definition counter_protocol :: "int \<Rightarrow> queue_op list \<Rightarrow> bool" where
  "counter_protocol C ops \<longleftrightarrow>
     list_all (\<lambda>n. fetches (take n ops) \<le> deposits (take n ops) \<and>
                   int (deposits (take n ops)) \<le> int (fetches (take n ops)) + C)
       [0 ..< Suc (length ops)]"

text \<open>
  A checker for the record of a run. \<open>pending\<close> maps a slot to the job that a
  \<^verbatim>\<open>deposit_item\<close> wrote there and that no \<^verbatim>\<open>fetch_item\<close> has read since. A deposit must hit
  a slot with nothing pending (no overwrite); a fetch must return exactly the job pending in
  the slot it reads, which is a job passed to an earlier \<^verbatim>\<open>deposit_item\<close> and not fetched
  since (no stale read).
\<close>

fun no_overwrite_no_stale_read :: "(nat \<rightharpoonup> job) \<Rightarrow> queue_event list \<Rightarrow> bool" where
  "no_overwrite_no_stale_read pending [] = True"
| "no_overwrite_no_stale_read pending (Deposited k j # evs) =
     (pending k = None \<and> no_overwrite_no_stale_read (pending(k \<mapsto> j)) evs)"
| "no_overwrite_no_stale_read pending (Fetched k j # evs) =
     (pending k = Some j \<and> no_overwrite_no_stale_read (pending(k := None)) evs)"

text \<open>The jobs that the calls of a record returned, and the jobs they were given, in order.\<close>

fun fetched_jobs :: "queue_event list \<Rightarrow> job list" where
  "fetched_jobs [] = []"
| "fetched_jobs (Deposited k j # evs) = fetched_jobs evs"
| "fetched_jobs (Fetched k j # evs) = j # fetched_jobs evs"

fun deposited_jobs :: "queue_event list \<Rightarrow> job list" where
  "deposited_jobs [] = []"
| "deposited_jobs (Deposited k j # evs) = j # deposited_jobs evs"
| "deposited_jobs (Fetched k j # evs) = deposited_jobs evs"

section \<open>The job generator\<close>

text \<open>
  \<^verbatim>\<open>int i = min + (rand() % max); return i;\<close>
  The value that \<^verbatim>\<open>rand()\<close> returns is the parameter \<open>r\<close>.
\<close>

definition produce :: "int \<Rightarrow> int \<Rightarrow> int \<Rightarrow> undefined_behaviour + int" where
  "produce min_v max_v r =
     (case rem_int r max_v of
        Inl e \<Rightarrow> Inl e
      | Inr m \<Rightarrow> add_int min_v m)"

section \<open>The producer thread\<close>

text \<open>The numbers of the three semaphores: \<^verbatim>\<open>int item = 0, space = 1, mutex = 2\<close>.\<close>

definition item :: int where "item = 0"
definition space :: int where "space = 1"
definition mutex :: int where "mutex = 2"

datatype message =
    ProducerTimeout int
  | ProducerJob int int int
  | ProducerNoMoreJobs int

text \<open>
  What one thread does that others can observe, in program order: \<^verbatim>\<open>sleep\<close>,
  \<^verbatim>\<open>sem_timed_wait\<close> (semaphore number, delay, returned value), \<^verbatim>\<open>sem_wait\<close>, \<^verbatim>\<open>sem_signal\<close>,
  \<^verbatim>\<open>deposit_item\<close> (slot written, job) and \<^verbatim>\<open>printf\<close>.
\<close>

datatype thread_event =
    Sleep int
  | SemTimedWait int int int
  | SemWait int
  | SemSignal int
  | DepositItem nat job
  | Printf message

text \<open>
  What the rest of the system decides for a producer, by the value of its loop counter \<open>i\<close>:
  the two values \<^verbatim>\<open>rand()\<close> returns, the value \<^verbatim>\<open>sem_timed_wait\<close> returns (\<^verbatim>\<open>semtimedop\<close>: 0, or
  -1 when the wait timed out or failed), and the queue operations that the other threads
  performed, each under the mutex, before this producer obtained the mutex in that iteration.
\<close>

record schedule =
  rand_duration :: "int \<Rightarrow> int"
  rand_delay :: "int \<Rightarrow> int"
  space_wait :: "int \<Rightarrow> int"
  others :: "int \<Rightarrow> queue_op list"

text \<open>
  The producer's critical section (lines 149 to 153), run while the thread holds the mutex:
  \<^verbatim>\<open>temp_job.job_id = (my_queue.tail + 1); temp_job.duration = duration;
  deposit_item(temp_job);\<close>
\<close>

definition producer_section :: "int \<Rightarrow> globals \<Rightarrow> undefined_behaviour + (job \<times> globals)" where
  "producer_section dur g =
     (case add_int (tail (my_queue g)) 1 of
        Inl e \<Rightarrow> Inl e
      | Inr new_id \<Rightarrow>
          (let temp_job = \<lparr>job_id = new_id, duration = dur\<rparr> in
           case deposit_item temp_job g of
             Inl e \<Rightarrow> Inl e
           | Inr g' \<Rightarrow> Inr (temp_job, g')))"

text \<open>
  The body of the producer's loop (lines 129 to 160). The result carries the value of the local
  \<^verbatim>\<open>timeout\<close>; when it is set the loop is left by \<^verbatim>\<open>break\<close>. The other threads run between
  the return of \<^verbatim>\<open>sem_timed_wait\<close> and the return of \<^verbatim>\<open>sem_wait (sem_id, mutex)\<close>; from there
  to \<^verbatim>\<open>sem_signal (sem_id, mutex)\<close> the producer holds the mutex and runs alone on the queue.
\<close>

definition producer_body ::
  "schedule \<Rightarrow> int \<Rightarrow> int \<Rightarrow> globals \<Rightarrow> undefined_behaviour + (thread_event list \<times> bool \<times> globals)" where
  "producer_body sch producer_id i g =
     (case produce 1 10 (rand_duration sch i) of
        Inl e \<Rightarrow> Inl e
      | Inr dur \<Rightarrow>
     (case produce 1 5 (rand_delay sch i) of
        Inl e \<Rightarrow> Inl e
      | Inr delay \<Rightarrow>
     (let timeout = (space_wait sch i \<noteq> 0) in
      if timeout then
        Inr ([Sleep delay, SemTimedWait space 20 (space_wait sch i),
              Printf (ProducerTimeout producer_id)], True, g)
      else
     (case run_ops (others sch i) g of
        Inl e \<Rightarrow> Inl e
      | Inr (seen, g1) \<Rightarrow>
     (case producer_section dur g1 of
        Inl e \<Rightarrow> Inl e
      | Inr (temp_job, g2) \<Rightarrow>
          Inr ([Sleep delay, SemTimedWait space 20 (space_wait sch i), SemWait mutex,
                DepositItem (nat (tail (my_queue g1))) temp_job,
                SemSignal mutex, SemSignal item,
                Printf (ProducerJob producer_id (job_id temp_job) (duration temp_job))],
               False, g2))))))"

text \<open>
  \<^verbatim>\<open>for(int i = 0; (i < jobs_per_producer); i++) { ... }\<close>, from the counter value \<open>i\<close> on.
\<close>

function producer_loop ::
  "schedule \<Rightarrow> int \<Rightarrow> int \<Rightarrow> globals \<Rightarrow> undefined_behaviour + (thread_event list \<times> bool \<times> globals)" where
  "producer_loop sch producer_id i g =
     (if i < jobs_per_producer g then
        (case producer_body sch producer_id i g of
           Inl e \<Rightarrow> Inl e
         | Inr (evs, timeout, g') \<Rightarrow>
             if timeout then Inr (evs, True, g')
             else
               (case producer_loop sch producer_id (i + 1) g' of
                  Inl e \<Rightarrow> Inl e
                | Inr (evs', timeout', g'') \<Rightarrow> Inr (evs @ evs', timeout', g'')))
      else Inr ([], False, g))"
  by pat_completeness auto
termination
proof (relation "measure (\<lambda>(sch, producer_id, i, g). nat (jobs_per_producer g - i))", goal_cases)
  case 1
  show ?case by simp
next
  case (2 sch producer_id i g r evs rest timeout g')
  have dep: "jobs_per_producer b = jobs_per_producer a" if "deposit_item j a = Inr b" for j a b
    using that by (auto simp: deposit_item_def Let_def split: if_splits sum.splits)
  have fet: "jobs_per_producer b = jobs_per_producer a" if "fetch_item a = Inr (j, b)" for j a b
    using that by (auto simp: fetch_item_def Let_def split: if_splits sum.splits)
  have run: "jobs_per_producer b = jobs_per_producer a" if "run_ops ops a = Inr (l, b)" for ops a l b
    using that
  proof (induction ops arbitrary: a l)
    case Nil
    then show ?case by simp
  next
    case (Cons op ops)
    then show ?case
      by (cases op) (auto split: sum.splits prod.splits dest: dep fet)
  qed
  from 2 have "producer_body sch producer_id i g = Inr (evs, timeout, g')"
    by simp
  then have "jobs_per_producer g' = jobs_per_producer g"
    by (auto simp: producer_body_def producer_section_def Let_def split: sum.splits if_splits prod.splits
          dest!: dep run)
  with 2 show ?case by simp
qed

text \<open>
  The same protocol as the two counting semaphores keep it: \<open>n\<close> is the value of \<^verbatim>\<open>item\<close> and
  \<open>C - n\<close> the value of \<^verbatim>\<open>space\<close>; a deposit needs space, a fetch needs an item.
\<close>

fun within_counters :: "int \<Rightarrow> int \<Rightarrow> queue_op list \<Rightarrow> bool" where
  "within_counters C n [] = True"
| "within_counters C n (Deposit j # ops) = (n < C \<and> within_counters C (n + 1) ops)"
| "within_counters C n (Fetch # ops) = (0 < n \<and> within_counters C (n - 1) ops)"

text \<open>
  The refinement relation behind the queue: \<open>items\<close> are the jobs deposited and not yet fetched,
  oldest first; they sit in the slots from \<open>head\<close> on, cyclically, and \<open>pending\<close> knows exactly
  these slots.
\<close>

definition slot_at :: "int \<Rightarrow> globals \<Rightarrow> nat \<Rightarrow> nat" where
  "slot_at C g i = nat ((head (my_queue g) + int i) mod C)"

definition holds_items :: "int \<Rightarrow> globals \<Rightarrow> job list \<Rightarrow> (nat \<rightharpoonup> job) \<Rightarrow> bool" where
  "holds_items C g items pending \<longleftrightarrow>
     queue_inv C g \<and> int (length items) \<le> C \<and>
     tail (my_queue g) = (head (my_queue g) + int (length items)) mod C \<and>
     (\<forall>i < length items.
        pending (slot_at C g i) = Some (items ! i) \<and>
        data (my_queue g) ! slot_at C g i = items ! i) \<and>
     (\<forall>k. (\<forall>i < length items. k \<noteq> slot_at C g i) \<longrightarrow> pending k = None)"

text \<open>
  The thread function: the loop from \<open>i = 0\<close>, then
  \<^verbatim>\<open>if(!timeout) printf("Producer(%d): No more jobs to generate\n", producer_id);\<close>
\<close>

definition producer ::
  "schedule \<Rightarrow> int \<Rightarrow> globals \<Rightarrow> undefined_behaviour + (thread_event list \<times> globals)" where
  "producer sch producer_id g =
     (case producer_loop sch producer_id 0 g of
        Inl e \<Rightarrow> Inl e
      | Inr (evs, timeout, g') \<Rightarrow>
          Inr (if \<not> timeout then evs @ [Printf (ProducerNoMoreJobs producer_id)] else evs, g'))"

fun is_deposit_event :: "thread_event \<Rightarrow> bool" where
  "is_deposit_event (DepositItem k j) = True"
| "is_deposit_event e = False"

section \<open>Critical sections in the order the mutex admits them\<close>

text \<open>
  Every call of \<^verbatim>\<open>deposit_item\<close> is made by a producer inside its critical section, and every
  call of \<^verbatim>\<open>fetch_item\<close> by a consumer inside its own
  (\<^verbatim>\<open>temp_job = fetch_item();\<close>). A run of the workers is, for the queue, the sequence of
  these sections.
\<close>

datatype critical_section = ProducerSection int | ConsumerSection

fun run_sections ::
  "critical_section list \<Rightarrow> globals \<Rightarrow> undefined_behaviour + (queue_event list \<times> globals)" where
  "run_sections [] g = Inr ([], g)"
| "run_sections (ProducerSection dur # cs) g =
     (case producer_section dur g of
        Inl e \<Rightarrow> Inl e
      | Inr (temp_job, g') \<Rightarrow>
          (case run_sections cs g' of
             Inl e \<Rightarrow> Inl e
           | Inr (evs, g'') \<Rightarrow> Inr (Deposited (nat (tail (my_queue g))) temp_job # evs, g'')))"
| "run_sections (ConsumerSection # cs) g =
     (case fetch_item g of
        Inl e \<Rightarrow> Inl e
      | Inr (temp_job, g') \<Rightarrow>
          (case run_sections cs g' of
             Inl e \<Rightarrow> Inl e
           | Inr (evs, g'') \<Rightarrow> Inr (Fetched (nat (head (my_queue g))) temp_job # evs, g'')))"

section \<open>\<^verbatim>\<open>check_arg\<close> of \<^verbatim>\<open>helper.cc\<close>\<close>

text \<open>
  \<^verbatim>\<open>temp = 0 + buffer[i]\<close>: the value of a \<^verbatim>\<open>char\<close>, which is signed on the platform of the
  program (the test against 48 and 57 comes out the same for an unsigned one).
\<close>

definition char_value :: "char \<Rightarrow> int" where
  "char_value c = (if of_char c < (128 :: int) then of_char c else of_char c - 256)"

text \<open>
  \<^verbatim>\<open>pow (10, strlen (buffer)-i-1) * (buffer[i] - 48)\<close> is computed in \<^verbatim>\<open>double\<close>. \<open>Some v\<close>
  stands for the double whose exact value is \<open>v\<close>; that is exact whenever the result lies in
  the range of \<^verbatim>\<open>int\<close>, and larger results, finite or infinite, all lie outside of it. \<open>None\<close> is
  NaN: \<^verbatim>\<open>pow\<close> overflows to infinity from exponent 309 on, and infinity times zero is NaN.
\<close>

definition digit_term :: "nat \<Rightarrow> int \<Rightarrow> int option" where
  "digit_term k d = (if 308 < k \<and> d = 0 then None else Some (10 ^ k * d))"

definition add_double :: "int \<Rightarrow> int option \<Rightarrow> int option" where
  "add_double num t = (case t of None \<Rightarrow> None | Some v \<Rightarrow> Some (num + v))"

text \<open>
  \<^verbatim>\<open>num += ...\<close> converts the double sum back to \<^verbatim>\<open>int\<close>. The conversion is the parameter
  \<open>cvt\<close>: the language fixes it only for values in the range of \<^verbatim>\<open>int\<close>, where it returns the
  value (the sums here are integers). \<open>cvttsd2si\<close> is what the x86-64 instruction does.
\<close>

definition conversion_ok :: "(int option \<Rightarrow> int) \<Rightarrow> bool" where
  "conversion_ok cvt \<longleftrightarrow> (\<forall>v. INT_MIN \<le> v \<and> v \<le> INT_MAX \<longrightarrow> cvt (Some v) = v)"

definition cvttsd2si :: "int option \<Rightarrow> int" where
  "cvttsd2si x =
     (case x of
        None \<Rightarrow> INT_MIN
      | Some v \<Rightarrow> if INT_MIN \<le> v \<and> v \<le> INT_MAX then v else INT_MIN)"

text \<open>
  The loop of \<^verbatim>\<open>check_arg\<close> over the characters not yet read; \<^verbatim>\<open>strlen (buffer)-i-1\<close> is the
  number of characters after the current one.
\<close>

fun check_arg_loop :: "(int option \<Rightarrow> int) \<Rightarrow> string \<Rightarrow> int \<Rightarrow> int" where
  "check_arg_loop cvt [] num = num"
| "check_arg_loop cvt (c # cs) num =
     (let temp = 0 + char_value c in
      if temp > 57 \<or> temp < 48 then - 1
      else check_arg_loop cvt cs
             (cvt (add_double num (digit_term (length cs) (char_value c - 48)))))"

text \<open>A \<^verbatim>\<open>char *\<close> argument is the list of its characters before the terminating NUL.\<close>

definition check_arg :: "(int option \<Rightarrow> int) \<Rightarrow> string \<Rightarrow> int" where
  "check_arg cvt buffer = (if length buffer = 0 then - 1 else check_arg_loop cvt buffer 0)"

text \<open>
  What the specification calls a positive integer, as a string: decimal digits only, at least
  one of them, not all of them zero.
\<close>

definition is_digit :: "char \<Rightarrow> bool" where
  "is_digit c \<longleftrightarrow> 48 \<le> char_value c \<and> char_value c \<le> 57"

definition denotes_positive_integer :: "string \<Rightarrow> bool" where
  "denotes_positive_integer s \<longleftrightarrow>
     s \<noteq> [] \<and> list_all is_digit s \<and> \<not> list_all (\<lambda>c. c = CHR ''0'') s"

section \<open>The semaphore set and \<^verbatim>\<open>main\<close>\<close>

text \<open>
  \<^verbatim>\<open>helper.h\<close> is not part of the sources at hand; the constants that \<^verbatim>\<open>main.cc\<close> takes from it
  are parameters.
\<close>

record helper_h =
  NO_ERROR :: int
  INCORRECT_NUMBER_OF_ARGUMENTS :: int
  NON_POSITIVE_INTEGER :: int
  SEM_KEY :: int

datatype worker = Producer | Consumer

datatype diagnostic =
    IncorrectNumberOfArguments
  | NotAValidNumber int
  | SupposedPositiveIntegers
  | ItemInitError
  | SpaceInitError
  | MutexInitError

text \<open>The calls of \<^verbatim>\<open>main\<close> that reach outside of the program, in program order.\<close>

datatype sys_event =
    Srand
  | Cerr diagnostic
  | PrintSemgetError int
  | PrintSemctlError int
  | SemGet int int
  | SemSetVal int int int
  | SemRemove int
  | NewJobArray int
  | DeleteJobArray
  | PthreadCreate worker int
  | PthreadJoin worker int

text \<open>
  The state of the operating system that the program sees: \<^verbatim>\<open>errno\<close>, the values of the
  semaphores of its set by number, and the record of the calls made so far.
\<close>

record os_state =
  errno :: int
  semval :: "int \<Rightarrow> int"
  trace :: "sys_event list"

text \<open>
  What the operating system decides: \<^verbatim>\<open>semget\<close> returns an identifier or fails with an error
  number; each \<^verbatim>\<open>semctl\<close> succeeds (\<open>None\<close>) or fails with an error number.
\<close>

record os_script =
  semget_result :: "int + int"
  setval_item :: "int option"
  setval_space :: "int option"
  setval_mutex :: "int option"
  rmid :: "int option"

definition emit :: "sys_event list \<Rightarrow> os_state \<Rightarrow> os_state" where
  "emit evs os = os\<lparr>trace := trace os @ evs\<rparr>"

text \<open>\<^verbatim>\<open>if ((id = semget (key, num, 0666 | IPC_CREAT | IPC_EXCL)) < 0) return -1; return id;\<close>\<close>

definition sem_create :: "int + int \<Rightarrow> int \<Rightarrow> int \<Rightarrow> os_state \<Rightarrow> int \<times> os_state" where
  "sem_create outcome key num os =
     (case outcome of
        Inl e \<Rightarrow> (- 1, emit [SemGet key num] (os\<lparr>errno := e\<rparr>))
      | Inr semid \<Rightarrow> (if semid < 0 then - 1 else semid, emit [SemGet key num] os))"

text \<open>\<^verbatim>\<open>if (semctl (id, num, SETVAL, semctl_arg) < 0) return -1; return 0;\<close>\<close>

definition sem_init :: "int option \<Rightarrow> int \<Rightarrow> int \<Rightarrow> int \<Rightarrow> os_state \<Rightarrow> int \<times> os_state" where
  "sem_init outcome semid num val os =
     (case outcome of
        Some e \<Rightarrow> (- 1, emit [SemSetVal semid num val] (os\<lparr>errno := e\<rparr>))
      | None \<Rightarrow> (0, emit [SemSetVal semid num val] (os\<lparr>semval := (semval os)(num := val)\<rparr>)))"

text \<open>\<^verbatim>\<open>if (semctl (id, 0, IPC_RMID, 0) < 0) return -1; return 0;\<close>\<close>

definition sem_close :: "int option \<Rightarrow> int \<Rightarrow> os_state \<Rightarrow> int \<times> os_state" where
  "sem_close outcome semid os =
     (case outcome of
        Some e \<Rightarrow> (- 1, emit [SemRemove semid] (os\<lparr>errno := e\<rparr>))
      | None \<Rightarrow> (0, emit [SemRemove semid] os))"

definition initialize_required_semaphores ::
  "helper_h \<Rightarrow> os_script \<Rightarrow> globals \<Rightarrow> os_state \<Rightarrow> int \<times> os_state" where
  "initialize_required_semaphores h sc g os =
     (case sem_init (setval_item sc) (sem_id g) item 0 os of (r1, os1) \<Rightarrow>
      if r1 \<noteq> 0 then (errno os1, emit [Cerr ItemInitError] os1)
      else
     (case sem_init (setval_space sc) (sem_id g) space (buffer_size g) os1 of (r2, os2) \<Rightarrow>
      if r2 \<noteq> 0 then (errno os2, emit [Cerr SpaceInitError] os2)
      else
     (case sem_init (setval_mutex sc) (sem_id g) mutex 1 os2 of (r3, os3) \<Rightarrow>
      if r3 \<noteq> 0 then (errno os3, emit [Cerr MutexInitError] os3)
      else (NO_ERROR h, os3))))"

text \<open>The globals before \<^verbatim>\<open>main\<close> runs: static storage is zero-initialised.\<close>

definition globals0 :: globals where
  "globals0 =
     \<lparr>buffer_size = 0, jobs_per_producer = 0, number_of_producers = 0,
      number_of_consumers = 0, sem_id = 0,
      my_queue = \<lparr>head = 0, tail = 0, array_size = 0, data = []\<rparr>\<rparr>"

definition setup_variables :: "(int option \<Rightarrow> int) \<Rightarrow> string list \<Rightarrow> globals \<Rightarrow> globals" where
  "setup_variables cvt argv g =
     g\<lparr>buffer_size := check_arg cvt (argv ! 1),
       jobs_per_producer := check_arg cvt (argv ! 2),
       number_of_producers := check_arg cvt (argv ! 3),
       number_of_consumers := check_arg cvt (argv ! 4)\<rparr>"

definition thread_events :: "(int \<Rightarrow> sys_event) \<Rightarrow> int \<Rightarrow> sys_event list" where
  "thread_events ev n = map (\<lambda>k. ev (int k + 1)) [0 ..< nat n]"

text \<open>
  \<^verbatim>\<open>main\<close>, with \<open>argv\<close> the list of its \<^verbatim>\<open>argc\<close> arguments (the program name first). The
  result is the value \<^verbatim>\<open>main\<close> returns, or the reason it did not return. What the worker
  threads do between \<^verbatim>\<open>pthread_create\<close> and \<^verbatim>\<open>pthread_join\<close> is not part of this function.
\<close>

definition main ::
  "helper_h \<Rightarrow> (int option \<Rightarrow> int) \<Rightarrow> os_script \<Rightarrow> (nat \<Rightarrow> job) \<Rightarrow> string list \<Rightarrow> os_state
     \<Rightarrow> (undefined_behaviour + int) \<times> os_state" where
  "main h cvt sc raw argv os0 =
     (let os1 = emit [Srand] os0 in
      if length argv \<noteq> 5 then
        (Inr (INCORRECT_NUMBER_OF_ARGUMENTS h), emit [Cerr IncorrectNumberOfArguments] os1)
      else
        (case find (\<lambda>i. check_arg cvt (argv ! i) = - 1) [1 ..< length argv] of
           Some i \<Rightarrow>
             (Inr (NON_POSITIVE_INTEGER h),
              emit [Cerr (NotAValidNumber (int i)), Cerr SupposedPositiveIntegers] os1)
         | None \<Rightarrow>
             (case sem_create (semget_result sc) (SEM_KEY h) 3 os1 of (semid, os2) \<Rightarrow>
              if semid = - 1 then (Inr (errno os2), emit [PrintSemgetError (errno os2)] os2)
              else
                (let g = setup_variables cvt argv (globals0\<lparr>sem_id := semid\<rparr>) in
                 if number_of_producers g < 0 \<or> number_of_consumers g < 0
                 then (Inl BadArrayLength, os2)
                 else
                   (case initialize_required_semaphores h sc g os2 of (r, os3) \<Rightarrow>
                    if r \<noteq> NO_ERROR h then
                      (case sem_close (rmid sc) (sem_id g)
                              (emit [PrintSemctlError (errno os3)] os3) of
                         (c, os4) \<Rightarrow> (Inr (errno os4), os4))
                    else
                      (case initializeQueue raw g of
                         Inl e \<Rightarrow> (Inl e, os3)
                       | Inr g1 \<Rightarrow>
                           (case sem_close (rmid sc) (sem_id g1)
                                   (emit ([NewJobArray (buffer_size g1)]
                                      @ thread_events (PthreadCreate Producer) (number_of_producers g1)
                                      @ thread_events (PthreadCreate Consumer) (number_of_consumers g1)
                                      @ thread_events (PthreadJoin Producer) (number_of_producers g1)
                                      @ thread_events (PthreadJoin Consumer) (number_of_consumers g1))
                                      os3) of
                              (c, os4) \<Rightarrow> (Inr (NO_ERROR h), emit [DeleteJobArray] os4))))))))"



text \<open>An operating system under which every call succeeds; \<^verbatim>\<open>semget\<close> returns identifier 5.\<close>

definition all_succeed :: os_script where
  "all_succeed =
     \<lparr>semget_result = Inr 5, setval_item = None, setval_space = None, setval_mutex = None,
      rmid = None\<rparr>"

text \<open>Values for \<^verbatim>\<open>helper.h\<close> and a fresh operating-system state, to run \<^verbatim>\<open>main\<close> on.\<close>

definition example_helper_h :: helper_h where
  "example_helper_h =
     \<lparr>NO_ERROR = 0, INCORRECT_NUMBER_OF_ARGUMENTS = 1, NON_POSITIVE_INTEGER = 2, SEM_KEY = 80\<rparr>"

definition fresh_os :: os_state where
  "fresh_os = \<lparr>errno = 0, semval = (\<lambda>n. 0), trace = []\<rparr>"

definition no_job :: "nat \<Rightarrow> job" where
  "no_job k = \<lparr>job_id = 0, duration = 0\<rparr>"

text \<open>
  What the record of a run says about a deposited job: its id is the slot it was written to
  plus one, and lies between 1 and the capacity.
\<close>

fun id_is_slot_plus_one :: "int \<Rightarrow> queue_event \<Rightarrow> bool" where
  "id_is_slot_plus_one C (Deposited k j) =
     (job_id j = int k + 1 \<and> 1 \<le> job_id j \<and> job_id j \<le> C)"
| "id_is_slot_plus_one C (Fetched k j) = True"

text \<open>
  A queue of capacity 3 as \<^verbatim>\<open>initializeQueue\<close> leaves it, for a producer of four jobs, and a
  schedule: the third timed wait of the producer times out; before its first critical section
  another producer deposits a job, before the later ones a consumer fetches one.
\<close>

definition example_globals :: globals where
  "example_globals =
     \<lparr>buffer_size = 3, jobs_per_producer = 4, number_of_producers = 2,
      number_of_consumers = 1, sem_id = 5,
      my_queue = \<lparr>head = 0, tail = 0, array_size = 3, data = [no_job 0, no_job 1, no_job 2]\<rparr>\<rparr>"

definition example_schedule :: schedule where
  "example_schedule =
     \<lparr>rand_duration = (\<lambda>i. 1804289383 + i), rand_delay = (\<lambda>i. 846930886 + i),
      space_wait = (\<lambda>i. if i = 2 then - 1 else 0),
      others = (\<lambda>i. if i = 0 then [Deposit \<lparr>job_id = 1, duration = 5\<rparr>] else [Fetch])\<rparr>"

section \<open>Properties\<close>

lemma smod_nonneg: "0 \<le> a \<Longrightarrow> 0 < b \<Longrightarrow> (a::int) smod b = a mod b"
  by (simp add: smod_int_alt_def sgn_if)

lemma next_index:
  assumes "0 \<le> t" "t < C" "C \<le> INT_MAX"
  shows "add_int t 1 = Inr (t + 1)" "rem_int (t + 1) C = Inr ((t + 1) mod C)"
  using assms by (auto simp: add_int_def rem_int_def INT_MAX_def INT_MIN_def smod_nonneg)

lemma deposit_item_inv:
  assumes "queue_inv C g" "C \<le> INT_MAX"
  shows "deposit_item j g = Inr (g\<lparr>my_queue := (my_queue g)\<lparr>data := (data (my_queue g))[nat (tail (my_queue g)) := j],
            tail := (tail (my_queue g) + 1) mod C\<rparr>\<rparr>)"
proof -
  from assms have b: "0 \<le> tail (my_queue g)" "tail (my_queue g) < C" "buffer_size g = C"
    "length (data (my_queue g)) = nat C"
    by (simp_all add: queue_inv_def)
  show ?thesis
    using b next_index [OF b(1) b(2) assms(2)] by (simp add: deposit_item_def Let_def)
qed

lemma fetch_item_inv:
  assumes "queue_inv C g" "C \<le> INT_MAX"
  shows "fetch_item g = Inr (data (my_queue g) ! nat (head (my_queue g)),
            g\<lparr>my_queue := (my_queue g)\<lparr>head := (head (my_queue g) + 1) mod C\<rparr>\<rparr>)"
proof -
  from assms have b: "0 \<le> head (my_queue g)" "head (my_queue g) < C" "buffer_size g = C"
    "length (data (my_queue g)) = nat C"
    by (simp_all add: queue_inv_def)
  show ?thesis
    using b next_index [OF b(1) b(2) assms(2)] by (simp add: fetch_item_def Let_def)
qed

lemma queue_inv_deposit:
  assumes "queue_inv C g" "C \<le> INT_MAX" "deposit_item j g = Inr g'"
  shows "queue_inv C g'"
  using assms deposit_item_inv [OF assms(1,2), of j] by (auto simp: queue_inv_def)

lemma queue_inv_fetch:
  assumes "queue_inv C g" "C \<le> INT_MAX" "fetch_item g = Inr (j, g')"
  shows "queue_inv C g'"
  using assms fetch_item_inv [OF assms(1,2)] by (auto simp: queue_inv_def)

lemma run_ops_inv:
  assumes "queue_inv C g" "C \<le> INT_MAX"
  shows "\<exists>evs g'. run_ops ops g = Inr (evs, g') \<and> queue_inv C g' \<and> (\<forall>e \<in> set evs. slot_of e < nat C)"
  using assms(1)
proof (induction ops arbitrary: g)
  case Nil
  then show ?case by simp
next
  case (Cons op ops)
  show ?case
  proof (cases op)
    case (Deposit j)
    obtain g1 where d: "deposit_item j g = Inr g1"
      using deposit_item_inv [OF Cons.prems assms(2)] by blast
    have i1: "queue_inv C g1" by (rule queue_inv_deposit [OF Cons.prems assms(2) d])
    from Cons.IH [OF i1] obtain evs g' where
      r: "run_ops ops g1 = Inr (evs, g')" "queue_inv C g'" "\<forall>e \<in> set evs. slot_of e < nat C"
      by blast
    have "nat (tail (my_queue g)) < nat C"
      using Cons.prems by (simp add: queue_inv_def)
    then show ?thesis using Deposit d r by simp
  next
    case Fetch
    obtain j g1 where d: "fetch_item g = Inr (j, g1)"
      using fetch_item_inv [OF Cons.prems assms(2)] by blast
    have i1: "queue_inv C g1" by (rule queue_inv_fetch [OF Cons.prems assms(2) d])
    from Cons.IH [OF i1] obtain evs g' where
      r: "run_ops ops g1 = Inr (evs, g')" "queue_inv C g'" "\<forall>e \<in> set evs. slot_of e < nat C"
      by blast
    have "nat (head (my_queue g)) < nat C"
      using Cons.prems by (simp add: queue_inv_def)
    then show ?thesis using Fetch d r by simp
  qed
qed

lemma initializeQueue_inv:
  assumes "0 < C" "buffer_size g = C"
  shows "\<exists>g0. initializeQueue raw g = Inr g0 \<and> queue_inv C g0 \<and> head (my_queue g0) = 0 \<and> tail (my_queue g0) = 0"
  using assms by (simp add: initializeQueue_def queue_inv_def)


text \<open>
  Claim C6. After \<^verbatim>\<open>initializeQueue\<close> with capacity \<open>C > 0\<close>, which sets \<open>head = tail = 0\<close>, every
  sequence of \<^verbatim>\<open>deposit_item\<close> and \<^verbatim>\<open>fetch_item\<close> calls runs without an access outside of the
  \<open>C\<close> slots (the run returns no error, and every slot it touched is below \<open>C\<close>) and ends in a
  state with \<open>0 \<le> head < C\<close> and \<open>0 \<le> tail < C\<close>. Since the sequence is arbitrary, the same
  holds after each of its prefixes.
\<close>

theorem indices_stay_in_bounds:
  assumes "0 < C" and "C \<le> INT_MAX" and "buffer_size g = C"
  shows "\<exists>g0 evs g'.
           initializeQueue raw g = Inr g0 \<and>
           head (my_queue g0) = 0 \<and> tail (my_queue g0) = 0 \<and>
           run_ops ops g0 = Inr (evs, g') \<and>
           0 \<le> head (my_queue g') \<and> head (my_queue g') < C \<and>
           0 \<le> tail (my_queue g') \<and> tail (my_queue g') < C \<and>
           length (data (my_queue g')) = nat C \<and>
           list_all (\<lambda>e. slot_of e < nat C) evs"
proof -
  obtain g0 where g0: "initializeQueue raw g = Inr g0" "queue_inv C g0"
    "head (my_queue g0) = 0" "tail (my_queue g0) = 0"
    using initializeQueue_inv [OF assms(1,3)] by blast
  obtain evs g' where r: "run_ops ops g0 = Inr (evs, g')" "queue_inv C g'"
    "\<forall>e \<in> set evs. slot_of e < nat C"
    using run_ops_inv [OF g0(2) assms(2)] by blast
  show ?thesis
    using g0 r by (simp add: queue_inv_def list_all_iff)
qed

theorem indices_stay_in_bounds_witness:
  "0 < (2 :: int) \<and> 2 \<le> INT_MAX \<and> buffer_size (globals0\<lparr>buffer_size := 2\<rparr>) = 2 \<and>
   (\<exists>g0 evs g'.
      initializeQueue (\<lambda>k. \<lparr>job_id = 0, duration = 0\<rparr>) (globals0\<lparr>buffer_size := 2\<rparr>) = Inr g0 \<and>
      head (my_queue g0) = 0 \<and> tail (my_queue g0) = 0 \<and>
      run_ops [Fetch, Deposit \<lparr>job_id = 1, duration = 7\<rparr>, Deposit \<lparr>job_id = 2, duration = 3\<rparr>,
               Deposit \<lparr>job_id = 1, duration = 9\<rparr>, Fetch] g0 = Inr (evs, g') \<and>
      0 \<le> head (my_queue g') \<and> head (my_queue g') < 2 \<and>
      0 \<le> tail (my_queue g') \<and> tail (my_queue g') < 2 \<and>
      length (data (my_queue g')) = nat 2 \<and>
      list_all (\<lambda>e. slot_of e < nat 2) evs)"
  using indices_stay_in_bounds [of 2 "globals0\<lparr>buffer_size := 2\<rparr>"
      "\<lambda>k. \<lparr>job_id = 0, duration = 0\<rparr>"
      "[Fetch, Deposit \<lparr>job_id = 1, duration = 7\<rparr>, Deposit \<lparr>job_id = 2, duration = 3\<rparr>,
        Deposit \<lparr>job_id = 1, duration = 9\<rparr>, Fetch]"]
  by (simp add: INT_MAX_def globals0_def)

text \<open>
  Claim C4. In every queue state of capacity \<open>C > 0\<close> that the invariant of the queue admits and
  in which \<open>head\<close> equals \<open>tail\<close>, \<^verbatim>\<open>deposit_item\<close> with job \<open>J\<close> followed at once by
  \<^verbatim>\<open>fetch_item\<close> returns a job with the duration of \<open>J\<close> (the job \<open>J\<close> itself).
\<close>

theorem deposit_then_fetch_round_trip:
  assumes "0 < C" and "C \<le> INT_MAX" and "queue_inv C g"
    and "head (my_queue g) = tail (my_queue g)"
  shows "\<exists>g1 K g2.
           deposit_item J g = Inr g1 \<and> fetch_item g1 = Inr (K, g2) \<and>
           duration K = duration J \<and> K = J"
proof -
  let ?g1 = "g\<lparr>my_queue := (my_queue g)\<lparr>data := (data (my_queue g))[nat (tail (my_queue g)) := J],
                 tail := (tail (my_queue g) + 1) mod C\<rparr>\<rparr>"
  have d: "deposit_item J g = Inr ?g1"
    by (rule deposit_item_inv [OF assms(3,2)])
  have i1: "queue_inv C ?g1"
    by (rule queue_inv_deposit [OF assms(3,2) d])
  have f: "fetch_item ?g1 = Inr (data (my_queue ?g1) ! nat (head (my_queue ?g1)),
             ?g1\<lparr>my_queue := (my_queue ?g1)\<lparr>head := (head (my_queue ?g1) + 1) mod C\<rparr>\<rparr>)"
    by (rule fetch_item_inv [OF i1 assms(2)])
  have "nat (tail (my_queue g)) < length (data (my_queue g))"
    using assms(3) by (simp add: queue_inv_def)
  then have "data (my_queue ?g1) ! nat (head (my_queue ?g1)) = J"
    using assms(4) by simp
  with d f show ?thesis by simp
qed

theorem deposit_then_fetch_round_trip_witness:
  "0 < (3 :: int) \<and> 3 \<le> INT_MAX \<and>
   queue_inv 3 (globals0\<lparr>buffer_size := 3,
      my_queue := \<lparr>head = 2, tail = 2, array_size = 3,
                   data = replicate 3 \<lparr>job_id = 0, duration = 0\<rparr>\<rparr>\<rparr>) \<and>
   (\<exists>g1 K g2.
      deposit_item \<lparr>job_id = 3, duration = 8\<rparr> (globals0\<lparr>buffer_size := 3,
        my_queue := \<lparr>head = 2, tail = 2, array_size = 3,
                     data = replicate 3 \<lparr>job_id = 0, duration = 0\<rparr>\<rparr>\<rparr>) = Inr g1 \<and>
      fetch_item g1 = Inr (K, g2) \<and>
      duration K = duration \<lparr>job_id = 3, duration = 8\<rparr> \<and> K = \<lparr>job_id = 3, duration = 8\<rparr>)"
proof -
  let ?g = "globals0\<lparr>buffer_size := 3,
      my_queue := \<lparr>head = 2, tail = 2, array_size = 3,
                   data = replicate 3 \<lparr>job_id = 0, duration = 0\<rparr>\<rparr>\<rparr>"
  have a: "0 < (3 :: int)" "(3 :: int) \<le> INT_MAX" by (simp_all add: INT_MAX_def)
  have b: "queue_inv 3 ?g" by (simp add: queue_inv_def globals0_def)
  have c: "head (my_queue ?g) = tail (my_queue ?g)" by simp
  show ?thesis
    using a b deposit_then_fetch_round_trip [OF a b c, of "\<lparr>job_id = 3, duration = 8\<rparr>"]
    by simp
qed

lemma mod_window_distinct:
  assumes "0 < C" "i < j" "j - i < C"
  shows "(h + i) mod C \<noteq> (h + j) mod (C :: int)"
proof
  assume "(h + i) mod C = (h + j) mod C"
  then have "(h + j) mod C = (h + i) mod C" by simp
  then have "C dvd (h + j) - (h + i)"
    by (simp only: mod_eq_dvd_iff)
  then have "C dvd j - i" by simp
  then have "C \<le> j - i"
    using assms(2) by (intro zdvd_imp_le) simp_all
  with assms(3) show False by simp
qed

lemma slot_at_distinct:
  assumes "0 < C" "i < j" "int j < C"
  shows "slot_at C g i \<noteq> slot_at C g j"
proof -
  have "(head (my_queue g) + int i) mod C \<noteq> (head (my_queue g) + int j) mod C"
    using assms by (intro mod_window_distinct) simp_all
  moreover have "0 \<le> (head (my_queue g) + int i) mod C" "0 \<le> (head (my_queue g) + int j) mod C"
    using assms(1) by simp_all
  ultimately show ?thesis
    by (simp add: slot_at_def)
qed

lemma holds_items_deposit:
  assumes h: "holds_items C g items pending" and lt: "int (length items) < C"
    and g1: "g1 = g\<lparr>my_queue := (my_queue g)\<lparr>data := (data (my_queue g))[nat (tail (my_queue g)) := j],
                  tail := (tail (my_queue g) + 1) mod C\<rparr>\<rparr>"
    and inv1: "queue_inv C g1"
  shows "pending (nat (tail (my_queue g))) = None"
    and "holds_items C g1 (items @ [j]) (pending(nat (tail (my_queue g)) \<mapsto> j))"
proof -
  let ?n = "length items"
  have C: "0 < C" using lt by linarith
  have inv: "queue_inv C g" using h by (simp add: holds_items_def)
  have t: "nat (tail (my_queue g)) = slot_at C g ?n"
    using h by (simp add: holds_items_def slot_at_def)
  have old: "pending (slot_at C g i) = Some (items ! i)"
    "data (my_queue g) ! slot_at C g i = items ! i" if "i < ?n" for i
    using h that by (simp_all add: holds_items_def)
  have out: "pending k = None" if "\<forall>i < ?n. k \<noteq> slot_at C g i" for k
    using h that by (simp add: holds_items_def)
  have ne: "slot_at C g i \<noteq> slot_at C g ?n" if "i < ?n" for i
    using slot_at_distinct [OF C that] lt by simp
  have same: "slot_at C g1 i = slot_at C g i" for i
    by (simp add: g1 slot_at_def)
  have d1: "data (my_queue g1) = (data (my_queue g))[slot_at C g ?n := j]"
    by (simp add: g1 t)
  have len: "slot_at C g ?n < length (data (my_queue g))"
    using inv t by (simp add: queue_inv_def) linarith
  show "pending (nat (tail (my_queue g))) = None"
    unfolding t using ne by (intro out) metis
  have tl: "tail (my_queue g1) = (head (my_queue g1) + int (length (items @ [j]))) mod C"
  proof -
    have "tail (my_queue g) = (head (my_queue g) + int ?n) mod C"
      using h by (simp add: holds_items_def)
    then have "(tail (my_queue g) + 1) mod C = (head (my_queue g) + int ?n + 1) mod C"
      by (simp add: mod_add_left_eq)
    then show ?thesis by (simp add: g1 add.commute add.left_commute)
  qed
  have slots: "(pending(nat (tail (my_queue g)) \<mapsto> j)) (slot_at C g1 i) = Some ((items @ [j]) ! i) \<and>
      data (my_queue g1) ! slot_at C g1 i = (items @ [j]) ! i" if "i < length (items @ [j])" for i
  proof (cases "i < ?n")
    case True
    then show ?thesis
      using old [OF True] ne [OF True] by (simp add: same t d1 nth_append)
  next
    case False
    with that have "i = ?n" by simp
    then show ?thesis
      using len by (simp add: same t d1 nth_append)
  qed
  have outs: "(pending(nat (tail (my_queue g)) \<mapsto> j)) k = None"
    if "\<forall>i < length (items @ [j]). k \<noteq> slot_at C g1 i" for k
  proof -
    from that have "k \<noteq> slot_at C g ?n" and "\<forall>i < ?n. k \<noteq> slot_at C g i"
      by (simp_all add: same)
    then show ?thesis using out t by simp
  qed
  show "holds_items C g1 (items @ [j]) (pending(nat (tail (my_queue g)) \<mapsto> j))"
    unfolding holds_items_def
    using inv1 lt tl slots outs by (intro conjI allI impI) simp_all
qed

lemma holds_items_fetch:
  assumes h: "holds_items C g (x # xs) pending"
    and g1: "g1 = g\<lparr>my_queue := (my_queue g)\<lparr>head := (head (my_queue g) + 1) mod C\<rparr>\<rparr>"
    and inv1: "queue_inv C g1"
  shows "pending (nat (head (my_queue g))) = Some x"
    and "data (my_queue g) ! nat (head (my_queue g)) = x"
    and "holds_items C g1 xs (pending(nat (head (my_queue g)) := None))"
proof -
  let ?n = "length (x # xs)"
  have inv: "queue_inv C g" using h by (simp add: holds_items_def)
  then have C: "0 < C" and hd: "0 \<le> head (my_queue g)" "head (my_queue g) < C"
    by (simp_all add: queue_inv_def)
  have le: "int ?n \<le> C" using h by (simp add: holds_items_def)
  have s0: "slot_at C g 0 = nat (head (my_queue g))"
    using hd by (simp add: slot_at_def)
  have old: "pending (slot_at C g i) = Some ((x # xs) ! i)"
    "data (my_queue g) ! slot_at C g i = (x # xs) ! i" if "i < ?n" for i
    using h that by (simp_all add: holds_items_def)
  have out: "pending k = None" if "\<forall>i < ?n. k \<noteq> slot_at C g i" for k
    using h that by (simp add: holds_items_def)
  show "pending (nat (head (my_queue g))) = Some x"
    using old(1) [of 0] by (simp add: s0)
  show "data (my_queue g) ! nat (head (my_queue g)) = x"
    using old(2) [of 0] by (simp add: s0)
  have shift: "slot_at C g1 i = slot_at C g (Suc i)" for i
  proof -
    have "((head (my_queue g) + 1) mod C + int i) mod C = (head (my_queue g) + 1 + int i) mod C"
      by (simp add: mod_add_left_eq)
    then show ?thesis
      by (simp add: g1 slot_at_def add.commute add.left_commute)
  qed
  have d1: "data (my_queue g1) = data (my_queue g)" "tail (my_queue g1) = tail (my_queue g)"
    "head (my_queue g1) = (head (my_queue g) + 1) mod C"
    by (simp_all add: g1)
  have ne: "slot_at C g (Suc i) \<noteq> slot_at C g 0" if "i < length xs" for i
  proof -
    have "int (Suc i) < C" using that le by simp
    from slot_at_distinct [OF C _ this, of 0 g] show ?thesis by simp
  qed
  have tl: "tail (my_queue g1) = (head (my_queue g1) + int (length xs)) mod C"
  proof -
    have "tail (my_queue g) = (head (my_queue g) + int ?n) mod C"
      using h by (simp add: holds_items_def)
    moreover have "((head (my_queue g) + 1) mod C + int (length xs)) mod C
        = (head (my_queue g) + 1 + int (length xs)) mod C"
      by (simp add: mod_add_left_eq)
    ultimately show ?thesis
      by (simp add: d1 add.commute add.left_commute)
  qed
  have slots: "(pending(nat (head (my_queue g)) := None)) (slot_at C g1 i) = Some (xs ! i) \<and>
      data (my_queue g1) ! slot_at C g1 i = xs ! i" if "i < length xs" for i
    using old [of "Suc i"] ne [OF that] that by (simp add: shift d1 s0 [symmetric])
  have outs: "(pending(nat (head (my_queue g)) := None)) k = None"
    if k: "\<forall>i < length xs. k \<noteq> slot_at C g1 i" for k
  proof (cases "k = slot_at C g 0")
    case True
    then show ?thesis by (simp add: s0)
  next
    case False
    have "k \<noteq> slot_at C g i" if "i < ?n" for i
    proof (cases i)
      case 0
      with False show ?thesis by simp
    next
      case (Suc i')
      with that k show ?thesis by (simp add: shift)
    qed
    then have "pending k = None" by (intro out) blast
    then show ?thesis by simp
  qed
  show "holds_items C g1 xs (pending(nat (head (my_queue g)) := None))"
    unfolding holds_items_def
    using inv1 le tl slots outs by (intro conjI allI impI) simp_all
qed

lemma run_ops_refines:
  assumes "C \<le> INT_MAX"
    and "holds_items C g items pending"
    and "within_counters C (int (length items)) ops"
  shows "\<exists>evs g'. run_ops ops g = Inr (evs, g') \<and>
           no_overwrite_no_stale_read pending evs \<and>
           fetched_jobs evs = take (length (fetched_jobs evs)) (items @ deposited_jobs evs)"
  using assms(2,3)
proof (induction ops arbitrary: g items pending)
  case Nil
  then show ?case by simp
next
  case (Cons op ops)
  have inv: "queue_inv C g" using Cons.prems(1) by (simp add: holds_items_def)
  show ?case
  proof (cases op)
    case (Deposit j)
    let ?k = "nat (tail (my_queue g))"
    let ?g1 = "g\<lparr>my_queue := (my_queue g)\<lparr>data := (data (my_queue g))[?k := j],
                 tail := (tail (my_queue g) + 1) mod C\<rparr>\<rparr>"
    have lt: "int (length items) < C" and rest: "within_counters C (int (length (items @ [j]))) ops"
      using Cons.prems(2) Deposit by (simp_all add: add.commute)
    have d: "deposit_item j g = Inr ?g1"
      by (rule deposit_item_inv [OF inv assms(1)])
    have i1: "queue_inv C ?g1"
      by (rule queue_inv_deposit [OF inv assms(1) d])
    have free: "pending ?k = None"
      and h1: "holds_items C ?g1 (items @ [j]) (pending(?k \<mapsto> j))"
      using holds_items_deposit [OF Cons.prems(1) lt refl i1] by blast+
    from Cons.IH [OF h1 rest] obtain evs g' where
      r: "run_ops ops ?g1 = Inr (evs, g')"
        "no_overwrite_no_stale_read (pending(?k \<mapsto> j)) evs"
        "fetched_jobs evs = take (length (fetched_jobs evs)) ((items @ [j]) @ deposited_jobs evs)"
      by blast
    have "run_ops (op # ops) g = Inr (Deposited ?k j # evs, g')"
      using Deposit d r(1) by simp
    moreover have "no_overwrite_no_stale_read pending (Deposited ?k j # evs)"
      using free r(2) by simp
    moreover have "fetched_jobs (Deposited ?k j # evs) =
        take (length (fetched_jobs (Deposited ?k j # evs))) (items @ deposited_jobs (Deposited ?k j # evs))"
      using r(3) by simp
    ultimately show ?thesis by blast
  next
    case Fetch
    from Cons.prems(2) Fetch have pos: "0 < length items"
      and rest0: "within_counters C (int (length items) - 1) ops"
      by simp_all
    then obtain x xs where items: "items = x # xs"
      by (cases items) simp_all
    have rest: "within_counters C (int (length xs)) ops"
      using rest0 by (simp add: items)
    let ?k = "nat (head (my_queue g))"
    let ?g1 = "g\<lparr>my_queue := (my_queue g)\<lparr>head := (head (my_queue g) + 1) mod C\<rparr>\<rparr>"
    have f: "fetch_item g = Inr (data (my_queue g) ! ?k, ?g1)"
      by (rule fetch_item_inv [OF inv assms(1)])
    have i1: "queue_inv C ?g1"
      by (rule queue_inv_fetch [OF inv assms(1) f])
    have hx: "holds_items C g (x # xs) pending"
      using Cons.prems(1) by (simp add: items)
    have pend: "pending ?k = Some x" and dat: "data (my_queue g) ! ?k = x"
      and h1: "holds_items C ?g1 xs (pending(?k := None))"
      using holds_items_fetch [OF hx refl i1] by blast+
    from Cons.IH [OF h1 rest] obtain evs g' where
      r: "run_ops ops ?g1 = Inr (evs, g')"
        "no_overwrite_no_stale_read (pending(?k := None)) evs"
        "fetched_jobs evs = take (length (fetched_jobs evs)) (xs @ deposited_jobs evs)"
      by blast
    have "run_ops (op # ops) g = Inr (Fetched ?k x # evs, g')"
      using Fetch f dat r(1) by simp
    moreover have "no_overwrite_no_stale_read pending (Fetched ?k x # evs)"
      using pend r(2) by simp
    moreover have "fetched_jobs (Fetched ?k x # evs) =
        take (length (fetched_jobs (Fetched ?k x # evs))) (items @ deposited_jobs (Fetched ?k x # evs))"
      using r(3) by (simp add: items)
    ultimately show ?thesis by blast
  qed
qed

lemma counts_Cons:
  "deposits (op # ops) = (if is_deposit op then Suc (deposits ops) else deposits ops)"
  "fetches (op # ops) = (if is_deposit op then fetches ops else Suc (fetches ops))"
  by (simp_all add: deposits_def fetches_def)

lemma within_counters_of_prefixes:
  assumes "\<forall>n \<le> length ops.
             0 \<le> k + int (deposits (take n ops)) - int (fetches (take n ops)) \<and>
             k + int (deposits (take n ops)) - int (fetches (take n ops)) \<le> C"
  shows "within_counters C k ops"
  using assms
proof (induction ops arbitrary: k)
  case Nil
  then show ?case by simp
next
  case (Cons op ops)
  have one: "0 \<le> k + int (deposits [op]) - int (fetches [op])"
    "k + int (deposits [op]) - int (fetches [op]) \<le> C"
    using Cons.prems [rule_format, of 1] by simp_all
  have later: "0 \<le> k + int (deposits (op # take n ops)) - int (fetches (op # take n ops)) \<and>
      k + int (deposits (op # take n ops)) - int (fetches (op # take n ops)) \<le> C"
    if "n \<le> length ops" for n
    using Cons.prems [rule_format, of "Suc n"] that by simp
  show ?case
  proof (cases op)
    case (Deposit j)
    have "\<forall>n \<le> length ops.
        0 \<le> (k + 1) + int (deposits (take n ops)) - int (fetches (take n ops)) \<and>
        (k + 1) + int (deposits (take n ops)) - int (fetches (take n ops)) \<le> C"
    proof (intro allI impI)
      fix n assume n: "n \<le> length ops"
      from later [OF n] Deposit
      show "0 \<le> (k + 1) + int (deposits (take n ops)) - int (fetches (take n ops)) \<and>
        (k + 1) + int (deposits (take n ops)) - int (fetches (take n ops)) \<le> C"
        by (simp add: counts_Cons)
    qed
    then have "within_counters C (k + 1) ops"
      by (rule Cons.IH)
    moreover have "k < C"
      using one(2) Deposit by (simp add: deposits_def fetches_def)
    ultimately show ?thesis using Deposit by simp
  next
    case Fetch
    have "\<forall>n \<le> length ops.
        0 \<le> (k - 1) + int (deposits (take n ops)) - int (fetches (take n ops)) \<and>
        (k - 1) + int (deposits (take n ops)) - int (fetches (take n ops)) \<le> C"
    proof (intro allI impI)
      fix n assume n: "n \<le> length ops"
      from later [OF n] Fetch
      show "0 \<le> (k - 1) + int (deposits (take n ops)) - int (fetches (take n ops)) \<and>
        (k - 1) + int (deposits (take n ops)) - int (fetches (take n ops)) \<le> C"
        by (simp add: counts_Cons)
    qed
    then have "within_counters C (k - 1) ops"
      by (rule Cons.IH)
    moreover have "0 < k"
      using one(1) Fetch by (simp add: deposits_def fetches_def)
    ultimately show ?thesis using Fetch by simp
  qed
qed

lemma counter_protocol_within_counters:
  assumes "counter_protocol C ops"
  shows "within_counters C 0 ops"
proof (rule within_counters_of_prefixes, intro allI impI)
  fix n assume "n \<le> length ops"
  then have "n \<in> set [0 ..< Suc (length ops)]" by auto
  with assms have "fetches (take n ops) \<le> deposits (take n ops) \<and>
      int (deposits (take n ops)) \<le> int (fetches (take n ops)) + C"
    unfolding counter_protocol_def list_all_iff by blast
  then show "0 \<le> 0 + int (deposits (take n ops)) - int (fetches (take n ops)) \<and>
      0 + int (deposits (take n ops)) - int (fetches (take n ops)) \<le> C"
    by simp
qed

lemma holds_items_initial:
  assumes "queue_inv C g" "head (my_queue g) = 0" "tail (my_queue g) = 0"
  shows "holds_items C g [] Map.empty"
  using assms by (simp add: holds_items_def queue_inv_def)

text \<open>
  Claim C1. Start from the queue that \<^verbatim>\<open>initializeQueue\<close> makes for capacity \<open>C > 0\<close> and run any
  finite sequence of \<^verbatim>\<open>deposit_item\<close> and \<^verbatim>\<open>fetch_item\<close> calls that respects the counter
  protocol (at every prefix: fetches \<open>\<le>\<close> deposits \<open>\<le>\<close> fetches \<open>+ C\<close>). Then the run is defined,
  every \<^verbatim>\<open>fetch_item\<close> returns the job that an earlier \<^verbatim>\<open>deposit_item\<close> put into the slot it
  reads and that was not fetched since, no \<^verbatim>\<open>deposit_item\<close> writes to a slot whose deposited
  job is still unfetched, and the jobs come out in the order they went in.
\<close>

theorem protocol_runs_fetch_only_deposited_jobs:
  assumes "0 < C" and "C \<le> INT_MAX" and "buffer_size g = C"
    and "counter_protocol C ops"
  shows "\<exists>g0 evs g'.
           initializeQueue raw g = Inr g0 \<and>
           run_ops ops g0 = Inr (evs, g') \<and>
           no_overwrite_no_stale_read Map.empty evs \<and>
           fetched_jobs evs = take (length (fetched_jobs evs)) (deposited_jobs evs)"
proof -
  obtain g0 where g0: "initializeQueue raw g = Inr g0" "queue_inv C g0"
    "head (my_queue g0) = 0" "tail (my_queue g0) = 0"
    using initializeQueue_inv [OF assms(1,3)] by blast
  have h0: "holds_items C g0 [] Map.empty"
    by (rule holds_items_initial [OF g0(2,3,4)])
  have w: "within_counters C (int (length ([] :: job list))) ops"
    using counter_protocol_within_counters [OF assms(4)] by simp
  from run_ops_refines [OF assms(2) h0 w] g0(1) show ?thesis
    by auto
qed

theorem protocol_runs_fetch_only_deposited_jobs_witness:
  "0 < (2 :: int) \<and> 2 \<le> INT_MAX \<and> buffer_size (globals0\<lparr>buffer_size := 2\<rparr>) = 2 \<and>
   counter_protocol 2
     [Deposit \<lparr>job_id = 1, duration = 7\<rparr>, Deposit \<lparr>job_id = 2, duration = 3\<rparr>, Fetch,
      Deposit \<lparr>job_id = 1, duration = 9\<rparr>, Fetch, Fetch] \<and>
   (\<exists>g0 evs g'.
      initializeQueue (\<lambda>k. \<lparr>job_id = 0, duration = 0\<rparr>) (globals0\<lparr>buffer_size := 2\<rparr>) = Inr g0 \<and>
      run_ops
        [Deposit \<lparr>job_id = 1, duration = 7\<rparr>, Deposit \<lparr>job_id = 2, duration = 3\<rparr>, Fetch,
         Deposit \<lparr>job_id = 1, duration = 9\<rparr>, Fetch, Fetch] g0 = Inr (evs, g') \<and>
      no_overwrite_no_stale_read Map.empty evs \<and>
      fetched_jobs evs = take (length (fetched_jobs evs)) (deposited_jobs evs))"
proof -
  let ?ops = "[Deposit \<lparr>job_id = 1, duration = 7\<rparr>, Deposit \<lparr>job_id = 2, duration = 3\<rparr>, Fetch,
      Deposit \<lparr>job_id = 1, duration = 9\<rparr>, Fetch, Fetch]"
  have a: "0 < (2 :: int)" "(2 :: int) \<le> INT_MAX" "buffer_size (globals0\<lparr>buffer_size := 2\<rparr>) = 2"
    by (simp_all add: INT_MAX_def)
  have "[0 ..< Suc (length ?ops)] = [0, 1, 2, 3, 4, 5, 6]"
    by (simp add: upt_rec)
  then have p: "counter_protocol 2 ?ops"
    by (simp add: counter_protocol_def deposits_def fetches_def)
  show ?thesis
    using a p protocol_runs_fetch_only_deposited_jobs [OF a p, of "\<lambda>k. \<lparr>job_id = 0, duration = 0\<rparr>"]
    by simp
qed

text \<open>
  Claim C8, as stated: for every \<open>min\<close>, every \<open>max > 0\<close> and every nonnegative value of
  \<^verbatim>\<open>rand()\<close>, \<^verbatim>\<open>produce(min, max)\<close> returns an integer in \<open>[min, min + max)\<close>. It fails where
  \<^verbatim>\<open>min + (rand() % max)\<close> leaves the range of \<^verbatim>\<open>int\<close>: \<^verbatim>\<open>produce(2147483647, 2)\<close> with
  \<^verbatim>\<open>rand()\<close> returning 1 overflows and has no defined result.
\<close>

theorem produce_overflows_at_int_max:
  "produce 2147483647 2 1 = Inl SignedOverflow"
  by (simp add: produce_def rem_int_def add_int_def INT_MAX_def INT_MIN_def smod_int_alt_def)

text \<open>
  Claim C8, amended: for all \<^verbatim>\<open>int\<close> values \<open>min\<close> and \<open>max > 0\<close> with \<open>min + max - 1 \<le> INT_MAX\<close>
  and every nonnegative value of \<^verbatim>\<open>rand()\<close>, \<^verbatim>\<open>produce(min, max)\<close> returns an integer in
  \<open>[min, min + max)\<close>; in particular \<^verbatim>\<open>produce(1, 10)\<close> lies in \<open>[1, 10]\<close> and
  \<^verbatim>\<open>produce(1, 5)\<close> in \<open>[1, 5]\<close>.
\<close>

theorem produce_in_range:
  assumes "INT_MIN \<le> min_v" and "0 < max_v" and "min_v + max_v - 1 \<le> INT_MAX" and "0 \<le> r"
  shows "(\<exists>v. produce min_v max_v r = Inr v \<and> min_v \<le> v \<and> v < min_v + max_v) \<and>
         (\<exists>d. produce 1 10 r = Inr d \<and> 1 \<le> d \<and> d \<le> 10) \<and>
         (\<exists>s. produce 1 5 r = Inr s \<and> 1 \<le> s \<and> s \<le> 5)"
proof -
  have gen: "\<exists>v. produce a b r = Inr v \<and> a \<le> v \<and> v < a + b"
    if "INT_MIN \<le> a" "0 < b" "a + b - 1 \<le> INT_MAX" for a b
  proof -
    have m: "rem_int r b = Inr (r mod b)"
      using that(2) assms(4) by (simp add: rem_int_def smod_nonneg)
    have "0 \<le> r mod b" "r mod b < b"
      using that(2) by simp_all
    then have "add_int a (r mod b) = Inr (a + r mod b)" "a \<le> a + r mod b" "a + r mod b < a + b"
      using that(1,3) by (simp_all add: add_int_def)
    with m show ?thesis by (simp add: produce_def)
  qed
  have "\<exists>d. produce 1 10 r = Inr d \<and> 1 \<le> d \<and> d < 1 + 10"
    by (rule gen) (simp_all add: INT_MIN_def INT_MAX_def)
  moreover have "\<exists>s. produce 1 5 r = Inr s \<and> 1 \<le> s \<and> s < 1 + 5"
    by (rule gen) (simp_all add: INT_MIN_def INT_MAX_def)
  ultimately show ?thesis
    using gen [OF assms(1,2,3)] by auto
qed

theorem produce_in_range_witness:
  "INT_MIN \<le> 1 \<and> (0 :: int) < 10 \<and> 1 + 10 - 1 \<le> INT_MAX \<and> (0 :: int) \<le> 1804289383 \<and>
   (\<exists>v. produce 1 10 1804289383 = Inr v \<and> 1 \<le> v \<and> v < 1 + 10) \<and>
   (\<exists>d. produce 1 10 1804289383 = Inr d \<and> 1 \<le> d \<and> d \<le> 10) \<and>
   (\<exists>s. produce 1 5 1804289383 = Inr s \<and> 1 \<le> s \<and> s \<le> 5)"
  using produce_in_range [of 1 10 1804289383]
  by (simp add: INT_MIN_def INT_MAX_def)

text \<open>
  Claim C5. When \<^verbatim>\<open>initialize_required_semaphores\<close> succeeds, that is, returns \<^verbatim>\<open>NO_ERROR\<close>
  (no failing \<^verbatim>\<open>semctl\<close> leaves \<^verbatim>\<open>NO_ERROR\<close> itself in \<^verbatim>\<open>errno\<close>), the three counters
  hold \<open>item = 0\<close>, \<open>space = buffer_size\<close> and \<open>mutex = 1\<close>.
\<close>

theorem semaphores_initial_values:
  assumes "initialize_required_semaphores h sc g os = (NO_ERROR h, os')"
    and "setval_item sc \<noteq> Some (NO_ERROR h)"
    and "setval_space sc \<noteq> Some (NO_ERROR h)"
    and "setval_mutex sc \<noteq> Some (NO_ERROR h)"
  shows "semval os' item = 0 \<and> semval os' space = buffer_size g \<and> semval os' mutex = 1"
  using assms
  by (auto simp: initialize_required_semaphores_def sem_init_def emit_def item_def space_def
        mutex_def split: option.splits if_splits)

theorem semaphores_initial_values_witness:
  "initialize_required_semaphores \<lparr>NO_ERROR = 0, INCORRECT_NUMBER_OF_ARGUMENTS = 1,
       NON_POSITIVE_INTEGER = 2, SEM_KEY = 80\<rparr> all_succeed (globals0\<lparr>buffer_size := 4\<rparr>)
       \<lparr>errno = 0, semval = (\<lambda>n. 0), trace = []\<rparr>
     = (0, \<lparr>errno = 0, semval = (\<lambda>n. 0)(item := 0, space := 4, mutex := 1),
            trace = [SemSetVal 0 item 0, SemSetVal 0 space 4, SemSetVal 0 mutex 1]\<rparr>) \<and>
   semval (\<lparr>errno = 0, semval = (\<lambda>n. 0)(item := 0, space := 4, mutex := 1),
            trace = [SemSetVal 0 item 0, SemSetVal 0 space 4, SemSetVal 0 mutex 1]\<rparr>) item = 0 \<and>
   semval (\<lparr>errno = 0, semval = (\<lambda>n. 0)(item := 0, space := 4, mutex := 1),
            trace = [SemSetVal 0 item 0, SemSetVal 0 space 4, SemSetVal 0 mutex 1]\<rparr>) space
     = buffer_size (globals0\<lparr>buffer_size := 4\<rparr>) \<and>
   semval (\<lparr>errno = 0, semval = (\<lambda>n. 0)(item := 0, space := 4, mutex := 1),
            trace = [SemSetVal 0 item 0, SemSetVal 0 space 4, SemSetVal 0 mutex 1]\<rparr>) mutex = 1"
proof -
  let ?h = "\<lparr>NO_ERROR = 0, INCORRECT_NUMBER_OF_ARGUMENTS = 1, NON_POSITIVE_INTEGER = 2,
             SEM_KEY = 80\<rparr>"
  let ?os' = "\<lparr>errno = 0, semval = (\<lambda>n. 0)(item := 0, space := 4, mutex := 1),
            trace = [SemSetVal 0 item 0, SemSetVal 0 space 4, SemSetVal 0 mutex 1]\<rparr>"
  have run: "initialize_required_semaphores ?h all_succeed (globals0\<lparr>buffer_size := 4\<rparr>)
       \<lparr>errno = 0, semval = (\<lambda>n. 0), trace = []\<rparr> = (NO_ERROR ?h, ?os')"
    by (simp add: initialize_required_semaphores_def sem_init_def emit_def all_succeed_def
          globals0_def)
  have ok: "setval_item all_succeed \<noteq> Some (NO_ERROR ?h)"
    "setval_space all_succeed \<noteq> Some (NO_ERROR ?h)"
    "setval_mutex all_succeed \<noteq> Some (NO_ERROR ?h)"
    by (simp_all add: all_succeed_def)
  show ?thesis
    using run semaphores_initial_values [OF run ok] by simp
qed

lemma arguments_pass:
  assumes "length argv = 5" and "list_all (\<lambda>i. \<not> Q (argv ! i)) [1, 2, 3, 4]"
  shows "find (\<lambda>i. Q (argv ! i)) [1 ..< length argv] = None"
proof -
  have "\<not> Q (argv ! i)" if "i \<in> set [1 ..< 5]" for i
  proof -
    from that have "i = 1 \<or> i = 2 \<or> i = 3 \<or> i = 4" by auto
    with assms(2) show ?thesis by auto
  qed
  then show ?thesis
    by (simp only: find_None_iff assms(1)) blast
qed



lemma check_arg_examples:
  "check_arg cvttsd2si ''0'' = 0"
  "check_arg cvttsd2si ''1'' = 1"
  "check_arg cvttsd2si ''2'' = 2"
  "check_arg cvttsd2si ''3'' = 3"
  "check_arg cvttsd2si ''40000'' = 40000"
  by (simp_all add: check_arg_def char_value_def digit_term_def add_double_def cvttsd2si_def
        INT_MIN_def INT_MAX_def)




lemma check_arg_loop_rejects:
  assumes "\<not> list_all is_digit s"
  shows "check_arg_loop cvt s num = - 1"
  using assms
proof (induction s arbitrary: num)
  case Nil
  then show ?case by simp
next
  case (Cons c s)
  show ?case
  proof (cases "is_digit c")
    case True
    with Cons.prems have "\<not> list_all is_digit s" by simp
    from Cons.IH [OF this] True show ?thesis
      by (simp add: is_digit_def Let_def)
  next
    case False
    then show ?thesis
      by (auto simp: is_digit_def Let_def)
  qed
qed

lemma check_arg_rejects:
  assumes "s = [] \<or> \<not> list_all is_digit s"
  shows "check_arg cvt s = - 1"
  using assms check_arg_loop_rejects [of s cvt 0] by (auto simp: check_arg_def)

lemma main_rejects:
  assumes "length argv = 5"
    and "list_ex (\<lambda>i. argv ! i = [] \<or> \<not> list_all is_digit (argv ! i)) [1, 2, 3, 4]"
  shows "\<exists>i. main h cvt sc raw argv os =
           (Inr (NON_POSITIVE_INTEGER h),
            emit [Srand, Cerr (NotAValidNumber i), Cerr SupposedPositiveIntegers] os)"
proof -
  from assms(2) obtain k where k: "k \<in> set [1, 2, 3, 4 :: nat]"
    "argv ! k = [] \<or> \<not> list_all is_digit (argv ! k)"
    unfolding list_ex_iff by blast
  from k(1) have k5: "k \<in> set [1 ..< 5]" by auto
  have "check_arg cvt (argv ! k) = - 1"
    using k(2) by (rule check_arg_rejects)
  with k5 have "find (\<lambda>i. check_arg cvt (argv ! i) = - 1) [1 ..< 5] \<noteq> None"
    by (simp only: find_None_iff) blast
  then obtain i where i: "find (\<lambda>i. check_arg cvt (argv ! i) = - 1) [1 ..< 5] = Some i"
    by blast
  have "main h cvt sc raw argv os =
      (Inr (NON_POSITIVE_INTEGER h),
       emit [Cerr (NotAValidNumber (int i)), Cerr SupposedPositiveIntegers] (emit [Srand] os))"
    unfolding main_def Let_def assms(1) i by simp
  then show ?thesis
    by (auto simp: emit_def)
qed

lemma cvttsd2si_ok: "conversion_ok cvttsd2si"
  by (simp add: conversion_ok_def cvttsd2si_def)

lemma check_arg_zero:
  assumes "conversion_ok cvt"
  shows "check_arg cvt ''0'' = 0"
proof -
  have "cvt (Some 0) = 0"
    using assms by (simp add: conversion_ok_def INT_MIN_def INT_MAX_def)
  then show ?thesis
    by (simp add: check_arg_def char_value_def digit_term_def add_double_def)
qed

lemma not_positive_integer_cases:
  "\<not> denotes_positive_integer s \<longleftrightarrow>
     s = [] \<or> \<not> list_all is_digit s \<or> list_all (\<lambda>c. c = CHR ''0'') s"
  by (auto simp: denotes_positive_integer_def)

text \<open>
  Claim C3, as stated: every argument string that does not denote a positive integer, the
  string \<^verbatim>\<open>"0"\<close> included, makes \<^verbatim>\<open>check_arg\<close> return -1 and the program exit with
  \<^verbatim>\<open>NON_POSITIVE_INTEGER\<close> before any resource is created. At \<^verbatim>\<open>"0"\<close> it fails: the string does
  not denote a positive integer, yet \<^verbatim>\<open>check_arg\<close> returns 0 for it, and \<^verbatim>\<open>main\<close> goes on: it
  creates the semaphore set, sets \<^verbatim>\<open>space\<close> to 0, allocates a queue of no slots, starts and
  joins the workers, and returns \<^verbatim>\<open>NO_ERROR\<close>.
\<close>

theorem zero_argument_is_accepted:
  "\<not> denotes_positive_integer ''0'' \<and>
   check_arg cvttsd2si ''0'' = 0 \<and>
   main example_helper_h cvttsd2si all_succeed no_job [''main'', ''0'', ''1'', ''1'', ''1'']
       fresh_os =
     (Inr (NO_ERROR example_helper_h),
      fresh_os\<lparr>semval := (semval fresh_os)(item := 0, space := 0, mutex := 1),
         trace := trace fresh_os @
           [Srand, SemGet (SEM_KEY example_helper_h) 3,
            SemSetVal 5 item 0, SemSetVal 5 space 0, SemSetVal 5 mutex 1,
            NewJobArray 0,
            PthreadCreate Producer 1, PthreadCreate Consumer 1,
            PthreadJoin Producer 1, PthreadJoin Consumer 1,
            SemRemove 5, DeleteJobArray]\<rparr>)"
proof -
  let ?argv = "[''main'', ''0'', ''1'', ''1'', ''1'']"
  have "\<not> denotes_positive_integer ''0''"
    by (simp add: denotes_positive_integer_def)
  moreover have args: "find (\<lambda>i. check_arg cvttsd2si (?argv ! i) = - 1) [1 ..< length ?argv] = None"
    by (rule arguments_pass) (simp_all add: check_arg_examples)
  have "main h cvttsd2si all_succeed raw ?argv os =
     (Inr (NO_ERROR h),
      os\<lparr>semval := (semval os)(item := 0, space := 0, mutex := 1),
         trace := trace os @
           [Srand, SemGet (SEM_KEY h) 3,
            SemSetVal 5 item 0, SemSetVal 5 space 0, SemSetVal 5 mutex 1,
            NewJobArray 0,
            PthreadCreate Producer 1, PthreadCreate Consumer 1,
            PthreadJoin Producer 1, PthreadJoin Consumer 1,
            SemRemove 5, DeleteJobArray]\<rparr>)" for h raw os
    unfolding main_def Let_def args
    by (simp add: all_succeed_def sem_create_def setup_variables_def
          check_arg_examples initialize_required_semaphores_def sem_init_def sem_close_def
          emit_def globals0_def initializeQueue_def thread_events_def)
  ultimately show ?thesis
    by (simp add: check_arg_examples)
qed

text \<open>
  Claim C3, amended: for every argument string that is empty or contains a character other
  than a decimal digit, \<^verbatim>\<open>check_arg\<close> returns -1, and a program started with four arguments of
  which one is such a string exits with \<^verbatim>\<open>NON_POSITIVE_INTEGER\<close>, having done nothing but
  seed the generator and print its two complaints: no semaphore set and no queue storage is
  created.
\<close>

theorem malformed_argument_is_rejected:
  assumes "length argv = 5" and "1 \<le> i" and "i \<le> 4"
    and "argv ! i = [] \<or> \<not> list_all is_digit (argv ! i)"
  shows "check_arg cvt (argv ! i) = - 1 \<and>
         (\<exists>k. main h cvt sc raw argv os =
                (Inr (NON_POSITIVE_INTEGER h),
                 emit [Srand, Cerr (NotAValidNumber k), Cerr SupposedPositiveIntegers] os))"
proof -
  from assms(2,3) have "i = 1 \<or> i = 2 \<or> i = 3 \<or> i = 4" by linarith
  with assms(4) have "list_ex (\<lambda>i. argv ! i = [] \<or> \<not> list_all is_digit (argv ! i)) [1, 2, 3, 4]"
    by auto
  from main_rejects [OF assms(1) this] check_arg_rejects [OF assms(4)] show ?thesis
    by blast
qed

theorem malformed_argument_is_rejected_witness:
  "length [''main'', ''4'', ''-3'', ''2'', ''2''] = 5 \<and> (1 :: nat) \<le> 2 \<and> (2 :: nat) \<le> 4 \<and>
   \<not> list_all is_digit ([''main'', ''4'', ''-3'', ''2'', ''2''] ! 2) \<and>
   check_arg cvttsd2si ([''main'', ''4'', ''-3'', ''2'', ''2''] ! 2) = - 1 \<and>
   (\<exists>k. main example_helper_h cvttsd2si all_succeed no_job
          [''main'', ''4'', ''-3'', ''2'', ''2''] fresh_os =
          (Inr (NON_POSITIVE_INTEGER example_helper_h),
           emit [Srand, Cerr (NotAValidNumber k), Cerr SupposedPositiveIntegers] fresh_os))"
proof -
  let ?argv = "[''main'', ''4'', ''-3'', ''2'', ''2'']"
  have a: "length ?argv = 5" "(1 :: nat) \<le> 2" "(2 :: nat) \<le> 4"
    by simp_all
  have b: "\<not> list_all is_digit (?argv ! 2)"
    by (simp add: is_digit_def char_value_def)
  then have c: "?argv ! 2 = [] \<or> \<not> list_all is_digit (?argv ! 2)" ..
  from malformed_argument_is_rejected [OF a c, of cvttsd2si example_helper_h all_succeed no_job fresh_os]
  show ?thesis
    using a b by blast
qed

lemma producer_section_inv:
  assumes "queue_inv C g" "C \<le> INT_MAX"
  shows "producer_section dur g =
           Inr (\<lparr>job_id = tail (my_queue g) + 1, duration = dur\<rparr>,
                g\<lparr>my_queue := (my_queue g)\<lparr>data := (data (my_queue g))[nat (tail (my_queue g)) :=
                        \<lparr>job_id = tail (my_queue g) + 1, duration = dur\<rparr>],
                      tail := (tail (my_queue g) + 1) mod C\<rparr>\<rparr>)"
proof -
  from assms(1) have b: "0 \<le> tail (my_queue g)" "tail (my_queue g) < C"
    by (simp_all add: queue_inv_def)
  show ?thesis
    using next_index(1) [OF b assms(2)] deposit_item_inv [OF assms]
    by (simp add: producer_section_def Let_def)
qed

lemma run_sections_ids:
  assumes "C \<le> INT_MAX" and "queue_inv C g"
  shows "\<exists>evs g'. run_sections cs g = Inr (evs, g') \<and>
           list_all (id_is_slot_plus_one C) evs \<and>
           map job_id (deposited_jobs evs) =
             map (\<lambda>n. (tail (my_queue g) + int n) mod C + 1) [0 ..< length (deposited_jobs evs)]"
  using assms(2)
proof (induction cs arbitrary: g)
  case Nil
  then show ?case by simp
next
  case (Cons c cs)
  from Cons.prems have b: "0 \<le> tail (my_queue g)" "tail (my_queue g) < C"
    by (simp_all add: queue_inv_def)
  show ?case
  proof (cases c)
    case (ProducerSection dur)
    let ?t = "tail (my_queue g)"
    let ?j = "\<lparr>job_id = ?t + 1, duration = dur\<rparr>"
    let ?g1 = "g\<lparr>my_queue := (my_queue g)\<lparr>data := (data (my_queue g))[nat ?t := ?j],
                 tail := (?t + 1) mod C\<rparr>\<rparr>"
    have s: "producer_section dur g = Inr (?j, ?g1)"
      by (rule producer_section_inv [OF Cons.prems assms(1)])
    have "deposit_item ?j g = Inr ?g1"
      by (rule deposit_item_inv [OF Cons.prems assms(1)])
    then have i1: "queue_inv C ?g1"
      by (rule queue_inv_deposit [OF Cons.prems assms(1)])
    from Cons.IH [OF i1] obtain evs g' where
      r: "run_sections cs ?g1 = Inr (evs, g')" "list_all (id_is_slot_plus_one C) evs"
        "map job_id (deposited_jobs evs) =
           map (\<lambda>n. ((?t + 1) mod C + int n) mod C + 1) [0 ..< length (deposited_jobs evs)]"
      by auto
    have shift: "((?t + 1) mod C + int n) mod C + 1 = (?t + int (Suc n)) mod C + 1" for n
    proof -
      have "((?t + 1) mod C + int n) mod C = (?t + 1 + int n) mod C"
        by (simp add: mod_add_left_eq)
      then show ?thesis by (simp add: add.commute add.left_commute)
    qed
    have first: "?t + 1 = (?t + int 0) mod C + 1"
      using b by simp
    have ids: "map job_id (deposited_jobs (Deposited (nat ?t) ?j # evs)) =
        map (\<lambda>n. (?t + int n) mod C + 1) [0 ..< length (deposited_jobs (Deposited (nat ?t) ?j # evs))]"
      using first by (simp add: r(3) shift map_upt_Suc del: upt_Suc)
    have "id_is_slot_plus_one C (Deposited (nat ?t) ?j)"
      using b by simp
    then have "list_all (id_is_slot_plus_one C) (Deposited (nat ?t) ?j # evs)"
      using r(2) by simp
    moreover have "run_sections (c # cs) g = Inr (Deposited (nat ?t) ?j # evs, g')"
      using ProducerSection s r(1) by simp
    ultimately show ?thesis using ids by blast
  next
    case ConsumerSection
    let ?k = "nat (head (my_queue g))"
    let ?g1 = "g\<lparr>my_queue := (my_queue g)\<lparr>head := (head (my_queue g) + 1) mod C\<rparr>\<rparr>"
    have f: "fetch_item g = Inr (data (my_queue g) ! ?k, ?g1)"
      by (rule fetch_item_inv [OF Cons.prems assms(1)])
    have i1: "queue_inv C ?g1"
      by (rule queue_inv_fetch [OF Cons.prems assms(1) f])
    from Cons.IH [OF i1] obtain evs g' where
      r: "run_sections cs ?g1 = Inr (evs, g')" "list_all (id_is_slot_plus_one C) evs"
        "map job_id (deposited_jobs evs) =
           map (\<lambda>n. (tail (my_queue g) + int n) mod C + 1) [0 ..< length (deposited_jobs evs)]"
      by auto
    have "run_sections (c # cs) g = Inr (Fetched ?k (data (my_queue g) ! ?k) # evs, g')"
      using ConsumerSection f r(1) by simp
    then show ?thesis using r(2,3) by simp
  qed
qed

text \<open>
  Claim C10. Run the critical sections of the workers, in any order and number, on the queue
  that \<^verbatim>\<open>initializeQueue\<close> makes for capacity \<open>C > 0\<close>. Every job a producer deposits has the id
  \<open>tail + 1\<close> for the slot \<open>tail\<close> it is written to, which lies in \<open>[1, C]\<close>; and the ids of the
  deposited jobs, in order, are \<open>1, 2, ..., C, 1, 2, ...\<close>: the \<open>n\<close>-th deposit (from 0) gets
  \<open>n mod C + 1\<close>.
\<close>

theorem job_ids_cycle_through_capacity:
  assumes "0 < C" and "C \<le> INT_MAX" and "buffer_size g = C"
  shows "\<exists>g0 evs g'.
           initializeQueue raw g = Inr g0 \<and>
           run_sections cs g0 = Inr (evs, g') \<and>
           list_all (id_is_slot_plus_one C) evs \<and>
           map job_id (deposited_jobs evs) =
             map (\<lambda>n. int n mod C + 1) [0 ..< length (deposited_jobs evs)]"
proof -
  obtain g0 where g0: "initializeQueue raw g = Inr g0" "queue_inv C g0"
    "head (my_queue g0) = 0" "tail (my_queue g0) = 0"
    using initializeQueue_inv [OF assms(1,3)] by blast
  from run_sections_ids [OF assms(2) g0(2), of cs] g0(1,4) show ?thesis
    by auto
qed

theorem job_ids_cycle_through_capacity_witness:
  "0 < (2 :: int) \<and> 2 \<le> INT_MAX \<and> buffer_size (globals0\<lparr>buffer_size := 2\<rparr>) = 2 \<and>
   (\<exists>g0 evs g'.
      initializeQueue no_job (globals0\<lparr>buffer_size := 2\<rparr>) = Inr g0 \<and>
      run_sections [ProducerSection 7, ProducerSection 3, ConsumerSection, ProducerSection 9,
                    ConsumerSection, ConsumerSection, ProducerSection 4] g0 = Inr (evs, g') \<and>
      list_all (id_is_slot_plus_one 2) evs \<and>
      map job_id (deposited_jobs evs) =
        map (\<lambda>n. int n mod 2 + 1) [0 ..< length (deposited_jobs evs)])"
  using job_ids_cycle_through_capacity [of 2 "globals0\<lparr>buffer_size := 2\<rparr>" no_job
      "[ProducerSection 7, ProducerSection 3, ConsumerSection, ProducerSection 9,
        ConsumerSection, ConsumerSection, ProducerSection 4]"]
  by (simp add: INT_MAX_def globals0_def)

declare producer_loop.simps [simp del]

lemma produce_small_defined:
  assumes "0 < b" "b \<le> 10"
  shows "\<exists>v. produce 1 b r = Inr v"
proof -
  have nz: "b \<noteq> 0" "b \<noteq> - 1" using assms(1) by simp_all
  then have m: "rem_int r b = Inr (r smod b)"
    by (simp add: rem_int_def)
  have "r smod b \<in> {- \<bar>b\<bar> + 1 .. \<bar>b\<bar> - 1}"
    by (rule smod_int_range [OF nz(1)])
  then have "- 10 < r smod b" "r smod b < 10"
    using assms by simp_all
  then have "add_int 1 (r smod b) = Inr (1 + r smod b)"
    by (simp add: add_int_def INT_MIN_def INT_MAX_def)
  with m show ?thesis by (simp add: produce_def)
qed

lemma jobs_per_producer_deposit:
  "deposit_item j a = Inr b \<Longrightarrow> jobs_per_producer b = jobs_per_producer a"
  by (auto simp: deposit_item_def Let_def split: if_splits sum.splits)

lemma producer_body_timeout:
  assumes "space_wait sch i \<noteq> 0"
  shows "\<exists>delay. producer_body sch producer_id i g =
           Inr ([Sleep delay, SemTimedWait space 20 (space_wait sch i),
                 Printf (ProducerTimeout producer_id)], True, g)"
proof -
  obtain dur where d: "produce 1 10 (rand_duration sch i) = Inr dur"
    using produce_small_defined [of 10] by auto
  obtain delay where s: "produce 1 5 (rand_delay sch i) = Inr delay"
    using produce_small_defined [of 5] by auto
  show ?thesis
    using assms by (simp add: producer_body_def d s)
qed

lemma producer_body_deposits:
  assumes "queue_inv C g" and "C \<le> INT_MAX" and "space_wait sch i = 0"
  shows "\<exists>seen g1 dur delay g2.
           run_ops (others sch i) g = Inr (seen, g1) \<and>
           queue_inv C g1 \<and>
           deposit_item \<lparr>job_id = tail (my_queue g1) + 1, duration = dur\<rparr> g1 = Inr g2 \<and>
           producer_body sch producer_id i g =
             Inr ([Sleep delay, SemTimedWait space 20 0, SemWait mutex,
                   DepositItem (nat (tail (my_queue g1)))
                     \<lparr>job_id = tail (my_queue g1) + 1, duration = dur\<rparr>,
                   SemSignal mutex, SemSignal item,
                   Printf (ProducerJob producer_id (tail (my_queue g1) + 1) dur)],
                  False, g2)"
proof -
  obtain dur where d: "produce 1 10 (rand_duration sch i) = Inr dur"
    using produce_small_defined [of 10] by auto
  obtain delay where s: "produce 1 5 (rand_delay sch i) = Inr delay"
    using produce_small_defined [of 5] by auto
  obtain seen g1 where r: "run_ops (others sch i) g = Inr (seen, g1)" and i1: "queue_inv C g1"
    using run_ops_inv [OF assms(1,2)] by blast
  let ?j = "\<lparr>job_id = tail (my_queue g1) + 1, duration = dur\<rparr>"
  let ?g2 = "g1\<lparr>my_queue := (my_queue g1)\<lparr>data := (data (my_queue g1))[nat (tail (my_queue g1)) := ?j],
                 tail := (tail (my_queue g1) + 1) mod C\<rparr>\<rparr>"
  have sec: "producer_section dur g1 = Inr (?j, ?g2)"
    by (rule producer_section_inv [OF i1 assms(2)])
  have dep: "deposit_item ?j g1 = Inr ?g2"
    by (rule deposit_item_inv [OF i1 assms(2)])
  have "producer_body sch producer_id i g =
      Inr ([Sleep delay, SemTimedWait space 20 0, SemWait mutex,
            DepositItem (nat (tail (my_queue g1))) ?j, SemSignal mutex, SemSignal item,
            Printf (ProducerJob producer_id (tail (my_queue g1) + 1) dur)], False, ?g2)"
    using assms(3) by (simp add: producer_body_def d s r sec)
  with r i1 dep show ?thesis by blast
qed

text \<open>
  Claim C2. In a producer iteration whose timed wait on \<^verbatim>\<open>space\<close> succeeds, whatever the other
  threads did to the queue before the producer obtained the mutex (leaving it in state
  \<open>g1\<close>), the producer's calls are, in this order: the timed wait on \<^verbatim>\<open>space\<close>, the wait on
  \<^verbatim>\<open>mutex\<close>, \<^verbatim>\<open>deposit_item\<close>, the signal of \<^verbatim>\<open>mutex\<close>, the signal of \<^verbatim>\<open>item\<close>; and the id of the
  deposited job is the tail index of \<open>g1\<close> plus one, the very slot \<^verbatim>\<open>deposit_item\<close> writes to:
  the tail is read while the mutex is held.
\<close>

theorem producer_reads_tail_under_mutex:
  assumes "0 < C" and "C \<le> INT_MAX" and "queue_inv C g" and "space_wait sch i = 0"
  shows "\<exists>seen g1 dur delay g2.
           run_ops (others sch i) g = Inr (seen, g1) \<and>
           deposit_item \<lparr>job_id = tail (my_queue g1) + 1, duration = dur\<rparr> g1 = Inr g2 \<and>
           producer_body sch producer_id i g =
             Inr ([Sleep delay, SemTimedWait space 20 0, SemWait mutex,
                   DepositItem (nat (tail (my_queue g1)))
                     \<lparr>job_id = tail (my_queue g1) + 1, duration = dur\<rparr>,
                   SemSignal mutex, SemSignal item,
                   Printf (ProducerJob producer_id (tail (my_queue g1) + 1) dur)],
                  False, g2)"
  using producer_body_deposits [OF assms(3,2,4)] by blast

lemma jobs_per_producer_fetch:
  "fetch_item a = Inr (j, b) \<Longrightarrow> jobs_per_producer b = jobs_per_producer a"
  by (auto simp: fetch_item_def Let_def split: if_splits sum.splits)

lemma jobs_per_producer_run_ops:
  "run_ops ops a = Inr (l, b) \<Longrightarrow> jobs_per_producer b = jobs_per_producer a"
proof (induction ops arbitrary: a l)
  case Nil
  then show ?case by simp
next
  case (Cons op ops)
  then show ?case
    by (cases op)
       (auto split: sum.splits prod.splits dest!: jobs_per_producer_deposit jobs_per_producer_fetch)
qed

lemma producer_body_step:
  assumes "queue_inv C g" and "C \<le> INT_MAX" and "space_wait sch i = 0"
  shows "\<exists>evs g2.
           producer_body sch producer_id i g = Inr (evs, False, g2) \<and>
           queue_inv C g2 \<and> jobs_per_producer g2 = jobs_per_producer g \<and>
           length (filter is_deposit_event evs) = 1 \<and>
           Printf (ProducerTimeout producer_id) \<notin> set evs \<and>
           Printf (ProducerNoMoreJobs producer_id) \<notin> set evs"
proof -
  from producer_body_deposits [OF assms, of producer_id]
  obtain seen g1 dur delay g2 where
    r: "run_ops (others sch i) g = Inr (seen, g1)" and i1: "queue_inv C g1"
    and dep: "deposit_item \<lparr>job_id = tail (my_queue g1) + 1, duration = dur\<rparr> g1 = Inr g2"
    and body: "producer_body sch producer_id i g =
      Inr ([Sleep delay, SemTimedWait space 20 0, SemWait mutex,
            DepositItem (nat (tail (my_queue g1))) \<lparr>job_id = tail (my_queue g1) + 1, duration = dur\<rparr>,
            SemSignal mutex, SemSignal item,
            Printf (ProducerJob producer_id (tail (my_queue g1) + 1) dur)], False, g2)"
    by blast
  have "queue_inv C g2"
    by (rule queue_inv_deposit [OF i1 assms(2) dep])
  moreover have "jobs_per_producer g2 = jobs_per_producer g"
    using jobs_per_producer_run_ops [OF r] jobs_per_producer_deposit [OF dep] by simp
  ultimately show ?thesis
    unfolding body by simp
qed

lemma producer_loop_no_timeout:
  assumes "C \<le> INT_MAX" and "queue_inv C g"
    and "\<forall>i'. i \<le> i' \<and> i' < jobs_per_producer g \<longrightarrow> space_wait sch i' = 0"
  shows "\<exists>evs g'.
           producer_loop sch producer_id i g = Inr (evs, False, g') \<and>
           length (filter is_deposit_event evs) = nat (jobs_per_producer g - i) \<and>
           Printf (ProducerTimeout producer_id) \<notin> set evs \<and>
           Printf (ProducerNoMoreJobs producer_id) \<notin> set evs"
  using assms(2,3)
proof (induction "nat (jobs_per_producer g - i)" arbitrary: i g)
  case 0
  then have "\<not> i < jobs_per_producer g" by simp
  then show ?case
    by (subst producer_loop.simps) simp
next
  case (Suc m)
  then have lt: "i < jobs_per_producer g" by linarith
  then have "space_wait sch i = 0" using Suc.prems(2) by simp
  from producer_body_step [OF Suc.prems(1) assms(1) this, of producer_id]
  obtain evs g2 where
    body: "producer_body sch producer_id i g = Inr (evs, False, g2)"
    and i2: "queue_inv C g2" and n2: "jobs_per_producer g2 = jobs_per_producer g"
    and one: "length (filter is_deposit_event evs) = 1"
    and quiet: "Printf (ProducerTimeout producer_id) \<notin> set evs"
      "Printf (ProducerNoMoreJobs producer_id) \<notin> set evs"
    by blast
  have m: "m = nat (jobs_per_producer g2 - (i + 1))"
    using Suc.hyps(2) n2 by linarith
  have later: "\<forall>i'. i + 1 \<le> i' \<and> i' < jobs_per_producer g2 \<longrightarrow> space_wait sch i' = 0"
    using Suc.prems(2) n2 by simp
  from Suc.hyps(1) [OF m i2 later] obtain evs' g' where
    rest: "producer_loop sch producer_id (i + 1) g2 = Inr (evs', False, g')"
    and cnt: "length (filter is_deposit_event evs') = nat (jobs_per_producer g2 - (i + 1))"
    and quiet': "Printf (ProducerTimeout producer_id) \<notin> set evs'"
      "Printf (ProducerNoMoreJobs producer_id) \<notin> set evs'"
    by blast
  have "producer_loop sch producer_id i g = Inr (evs @ evs', False, g')"
    using lt by (subst producer_loop.simps) (simp add: body rest)
  moreover have "length (filter is_deposit_event (evs @ evs')) = nat (jobs_per_producer g - i)"
    using one cnt n2 lt by simp
  ultimately show ?case
    using quiet quiet' by auto
qed

lemma producer_loop_first_timeout:
  assumes "C \<le> INT_MAX" and "queue_inv C g"
    and "i \<le> k" and "k < jobs_per_producer g" and "space_wait sch k \<noteq> 0"
    and "\<forall>i'. i \<le> i' \<and> i' < k \<longrightarrow> space_wait sch i' = 0"
  shows "\<exists>pre g'.
           producer_loop sch producer_id i g =
             Inr (pre @ [SemTimedWait space 20 (space_wait sch k),
                         Printf (ProducerTimeout producer_id)], True, g') \<and>
           length (filter is_deposit_event pre) = nat (k - i) \<and>
           Printf (ProducerNoMoreJobs producer_id) \<notin> set pre"
  using assms(2,3,4,6)
proof (induction "nat (k - i)" arbitrary: i g)
  case 0
  then have ik: "i = k" by simp
  from producer_body_timeout [OF assms(5), of producer_id g] obtain delay where
    body: "producer_body sch producer_id k g =
      Inr ([Sleep delay, SemTimedWait space 20 (space_wait sch k),
            Printf (ProducerTimeout producer_id)], True, g)"
    by blast
  have "producer_loop sch producer_id i g =
      Inr ([Sleep delay] @ [SemTimedWait space 20 (space_wait sch k),
            Printf (ProducerTimeout producer_id)], True, g)"
    using "0.prems"(3) by (subst producer_loop.simps) (simp add: ik body)
  moreover have "length (filter is_deposit_event [Sleep delay]) = nat (k - i)"
    "Printf (ProducerNoMoreJobs producer_id) \<notin> set [Sleep delay]"
    using ik by simp_all
  ultimately show ?case by blast
next
  case (Suc m)
  then have lt: "i < k" by linarith
  then have run: "i < jobs_per_producer g" using Suc.prems(3) by simp
  have "space_wait sch i = 0" using Suc.prems(4) lt by simp
  from producer_body_step [OF Suc.prems(1) assms(1) this, of producer_id]
  obtain evs g2 where
    body: "producer_body sch producer_id i g = Inr (evs, False, g2)"
    and i2: "queue_inv C g2" and n2: "jobs_per_producer g2 = jobs_per_producer g"
    and one: "length (filter is_deposit_event evs) = 1"
    and quiet: "Printf (ProducerNoMoreJobs producer_id) \<notin> set evs"
    by blast
  have m: "m = nat (k - (i + 1))"
    using Suc.hyps(2) by linarith
  have le: "i + 1 \<le> k" using lt by simp
  have k2: "k < jobs_per_producer g2" using Suc.prems(3) n2 by simp
  have later: "\<forall>i'. i + 1 \<le> i' \<and> i' < k \<longrightarrow> space_wait sch i' = 0"
    using Suc.prems(4) by simp
  from Suc.hyps(1) [OF m i2 le k2 later] obtain pre g' where
    rest: "producer_loop sch producer_id (i + 1) g2 =
      Inr (pre @ [SemTimedWait space 20 (space_wait sch k),
                  Printf (ProducerTimeout producer_id)], True, g')"
    and cnt: "length (filter is_deposit_event pre) = nat (k - (i + 1))"
    and quiet': "Printf (ProducerNoMoreJobs producer_id) \<notin> set pre"
    by blast
  have "producer_loop sch producer_id i g =
      Inr ((evs @ pre) @ [SemTimedWait space 20 (space_wait sch k),
                  Printf (ProducerTimeout producer_id)], True, g')"
    using run by (subst producer_loop.simps) (simp add: body rest)
  moreover have "length (filter is_deposit_event (evs @ pre)) = nat (k - i)"
    using one cnt lt by simp
  moreover have "Printf (ProducerNoMoreJobs producer_id) \<notin> set (evs @ pre)"
    using quiet quiet' by simp
  ultimately show ?case by blast
qed

lemma first_timeout_exists:
  assumes "0 \<le> j" and "j < n" and "space_wait sch j \<noteq> 0"
  shows "\<exists>k. 0 \<le> k \<and> k < n \<and> space_wait sch k \<noteq> 0 \<and>
           (\<forall>i. 0 \<le> i \<and> i < k \<longrightarrow> space_wait sch i = 0)"
  using assms
proof (induction "nat j" arbitrary: j rule: less_induct)
  case less
  show ?case
  proof (cases "\<exists>i. 0 \<le> i \<and> i < j \<and> space_wait sch i \<noteq> 0")
    case True
    then obtain i where i: "0 \<le> i" "i < j" "space_wait sch i \<noteq> 0" by blast
    have "nat i < nat j" using i less.prems by simp
    from less.hyps [OF this i(1) _ i(3)] i(2) less.prems(2) show ?thesis by simp
  next
    case False
    with less.prems show ?thesis by blast
  qed
qed

text \<open>
  Claim C7. A producer whose queue is in order runs to its end, and: it prints "No more jobs to
  generate" if and only if no timed wait on \<^verbatim>\<open>space\<close> in its \<^verbatim>\<open>jobs_per_producer\<close> iterations
  returned a timeout; and if iteration \<open>k\<close> is the first whose timed wait times out, then its
  last two actions are that wait and the message "terminated due to a timeout", it has made
  exactly \<open>k\<close> deposits, those of the iterations before, and it does not print "No more jobs
  to generate".
\<close>

theorem producer_exhaustion_or_timeout:
  assumes "0 < C" and "C \<le> INT_MAX" and "queue_inv C g"
  shows "\<exists>evs g'.
           producer sch producer_id g = Inr (evs, g') \<and>
           (Printf (ProducerNoMoreJobs producer_id) \<in> set evs \<longleftrightarrow>
              (\<forall>i. 0 \<le> i \<and> i < jobs_per_producer g \<longrightarrow> space_wait sch i = 0)) \<and>
           (\<forall>k. 0 \<le> k \<and> k < jobs_per_producer g \<and> space_wait sch k \<noteq> 0 \<and>
                (\<forall>i. 0 \<le> i \<and> i < k \<longrightarrow> space_wait sch i = 0) \<longrightarrow>
                (\<exists>pre. evs = pre @ [SemTimedWait space 20 (space_wait sch k),
                                     Printf (ProducerTimeout producer_id)]) \<and>
                length (filter is_deposit_event evs) = nat k \<and>
                Printf (ProducerNoMoreJobs producer_id) \<notin> set evs)"
proof (cases "\<forall>i. 0 \<le> i \<and> i < jobs_per_producer g \<longrightarrow> space_wait sch i = 0")
  case True
  from producer_loop_no_timeout [OF assms(2,3), of 0 sch producer_id] True
  obtain evs g' where
    loop: "producer_loop sch producer_id 0 g = Inr (evs, False, g')"
    by auto
  have "producer sch producer_id g = Inr (evs @ [Printf (ProducerNoMoreJobs producer_id)], g')"
    by (simp add: producer_def loop)
  moreover have "Printf (ProducerNoMoreJobs producer_id)
      \<in> set (evs @ [Printf (ProducerNoMoreJobs producer_id)])"
    by simp
  ultimately show ?thesis
    using True by auto
next
  case False
  then obtain j where "0 \<le> j" "j < jobs_per_producer g" "space_wait sch j \<noteq> 0"
    by blast
  from first_timeout_exists [OF this] obtain k where
    k: "0 \<le> k" "k < jobs_per_producer g" "space_wait sch k \<noteq> 0"
      "\<forall>i. 0 \<le> i \<and> i < k \<longrightarrow> space_wait sch i = 0"
    by blast
  from producer_loop_first_timeout [OF assms(2,3) k, of producer_id] obtain pre g' where
    loop: "producer_loop sch producer_id 0 g =
      Inr (pre @ [SemTimedWait space 20 (space_wait sch k),
                  Printf (ProducerTimeout producer_id)], True, g')"
    and cnt: "length (filter is_deposit_event pre) = nat (k - 0)"
    and quiet: "Printf (ProducerNoMoreJobs producer_id) \<notin> set pre"
    by blast
  let ?evs = "pre @ [SemTimedWait space 20 (space_wait sch k), Printf (ProducerTimeout producer_id)]"
  have run: "producer sch producer_id g = Inr (?evs, g')"
    by (simp add: producer_def loop)
  have no: "Printf (ProducerNoMoreJobs producer_id) \<notin> set ?evs"
    using quiet by simp
  have uniq: "k' = k" if "0 \<le> k'" "space_wait sch k' \<noteq> 0"
    "\<forall>i. 0 \<le> i \<and> i < k' \<longrightarrow> space_wait sch i = 0" for k'
  proof (rule ccontr)
    assume "k' \<noteq> k"
    then consider "k' < k" | "k < k'" by linarith
    then show False
    proof cases
      case 1
      with k(4) that(1,2) show False by blast
    next
      case 2
      with that(3) k(1,3) show False by blast
    qed
  qed
  have cnt': "length (filter is_deposit_event ?evs) = nat k"
    using cnt by simp
  have "(\<exists>p. ?evs = p @ [SemTimedWait space 20 (space_wait sch k'),
                           Printf (ProducerTimeout producer_id)]) \<and>
      length (filter is_deposit_event ?evs) = nat k' \<and>
      Printf (ProducerNoMoreJobs producer_id) \<notin> set ?evs"
    if "0 \<le> k' \<and> k' < jobs_per_producer g \<and> space_wait sch k' \<noteq> 0 \<and>
        (\<forall>i. 0 \<le> i \<and> i < k' \<longrightarrow> space_wait sch i = 0)" for k'
  proof -
    from that have "k' = k" by (intro uniq) simp_all
    then show ?thesis using cnt' no by blast
  qed
  then show ?thesis
    using run no False by blast
qed

lemma example_globals_inv: "queue_inv 3 example_globals"
  by (simp add: queue_inv_def example_globals_def)

theorem producer_reads_tail_under_mutex_witness:
  "0 < (3 :: int) \<and> 3 \<le> INT_MAX \<and> queue_inv 3 example_globals \<and>
   space_wait example_schedule 0 = 0 \<and>
   (\<exists>seen g1 dur delay g2.
      run_ops (others example_schedule 0) example_globals = Inr (seen, g1) \<and>
      tail (my_queue example_globals) = 0 \<and> tail (my_queue g1) = 1 \<and>
      deposit_item \<lparr>job_id = tail (my_queue g1) + 1, duration = dur\<rparr> g1 = Inr g2 \<and>
      producer_body example_schedule 1 0 example_globals =
        Inr ([Sleep delay, SemTimedWait space 20 0, SemWait mutex,
              DepositItem (nat (tail (my_queue g1)))
                \<lparr>job_id = tail (my_queue g1) + 1, duration = dur\<rparr>,
              SemSignal mutex, SemSignal item,
              Printf (ProducerJob 1 (tail (my_queue g1) + 1) dur)],
             False, g2))"
proof -
  have a: "0 < (3 :: int)" "(3 :: int) \<le> INT_MAX"
    by (simp_all add: INT_MAX_def)
  have w: "space_wait example_schedule 0 = 0"
    by (simp add: example_schedule_def)
  from producer_reads_tail_under_mutex [OF a example_globals_inv w, of 1]
  obtain seen g1 dur delay g2 where
    r: "run_ops (others example_schedule 0) example_globals = Inr (seen, g1)"
    and rest: "deposit_item \<lparr>job_id = tail (my_queue g1) + 1, duration = dur\<rparr> g1 = Inr g2"
      "producer_body example_schedule 1 0 example_globals =
        Inr ([Sleep delay, SemTimedWait space 20 0, SemWait mutex,
              DepositItem (nat (tail (my_queue g1)))
                \<lparr>job_id = tail (my_queue g1) + 1, duration = dur\<rparr>,
              SemSignal mutex, SemSignal item,
              Printf (ProducerJob 1 (tail (my_queue g1) + 1) dur)],
             False, g2)"
    by blast
  have d: "deposit_item \<lparr>job_id = 1, duration = 5\<rparr> example_globals =
      Inr (example_globals\<lparr>my_queue := (my_queue example_globals)
             \<lparr>data := (data (my_queue example_globals))
                 [nat (tail (my_queue example_globals)) := \<lparr>job_id = 1, duration = 5\<rparr>],
              tail := (tail (my_queue example_globals) + 1) mod 3\<rparr>\<rparr>)"
    by (rule deposit_item_inv [OF example_globals_inv a(2)])
  have "g1 = example_globals\<lparr>my_queue := (my_queue example_globals)
             \<lparr>data := (data (my_queue example_globals))
                 [nat (tail (my_queue example_globals)) := \<lparr>job_id = 1, duration = 5\<rparr>],
              tail := (tail (my_queue example_globals) + 1) mod 3\<rparr>\<rparr>"
    using r by (simp add: example_schedule_def d)
  then have "tail (my_queue g1) = 1"
    by (simp add: example_globals_def)
  moreover have "tail (my_queue example_globals) = 0"
    by (simp add: example_globals_def)
  ultimately show ?thesis
    using a example_globals_inv w r rest by blast
qed

theorem producer_exhaustion_or_timeout_witness:
  "0 < (3 :: int) \<and> 3 \<le> INT_MAX \<and> queue_inv 3 example_globals \<and>
   jobs_per_producer example_globals = 4 \<and>
   space_wait example_schedule 0 = 0 \<and> space_wait example_schedule 1 = 0 \<and>
   space_wait example_schedule 2 \<noteq> 0 \<and>
   (\<exists>evs g'.
      producer example_schedule 1 example_globals = Inr (evs, g') \<and>
      (\<exists>pre. evs = pre @ [SemTimedWait space 20 (- 1), Printf (ProducerTimeout 1)]) \<and>
      length (filter is_deposit_event evs) = 2 \<and>
      Printf (ProducerNoMoreJobs 1) \<notin> set evs) \<and>
   list_all (\<lambda>i. space_wait (example_schedule\<lparr>space_wait := (\<lambda>i. 0)\<rparr>) i = 0) [0, 1, 2, 3] \<and>
   (\<exists>evs g'.
      producer (example_schedule\<lparr>space_wait := (\<lambda>i. 0)\<rparr>) 1 example_globals = Inr (evs, g') \<and>
      Printf (ProducerNoMoreJobs 1) \<in> set evs)"
proof -
  have a: "0 < (3 :: int)" "(3 :: int) \<le> INT_MAX"
    by (simp_all add: INT_MAX_def)
  have n: "jobs_per_producer example_globals = 4"
    by (simp add: example_globals_def)
  have w: "space_wait example_schedule 0 = 0" "space_wait example_schedule 1 = 0"
    "space_wait example_schedule 2 \<noteq> 0"
    by (simp_all add: example_schedule_def)
  have before: "space_wait example_schedule i = 0" if "0 \<le> i \<and> i < 2" for i
  proof -
    from that have "i = 0 \<or> i = 1" by linarith
    with w show ?thesis by blast
  qed
  have k: "0 \<le> (2 :: int) \<and> 2 < jobs_per_producer example_globals \<and>
      space_wait example_schedule 2 \<noteq> 0 \<and>
      (\<forall>i. 0 \<le> i \<and> i < 2 \<longrightarrow> space_wait example_schedule i = 0)"
    using w(3) before by (simp add: n)
  have w2: "space_wait example_schedule 2 = - 1"
    by (simp add: example_schedule_def)
  have quiet4: "list_all (\<lambda>i. space_wait (example_schedule\<lparr>space_wait := (\<lambda>i. 0)\<rparr>) i = 0)
      [0, 1, 2, 3]"
    by simp
  have quiet: "\<forall>i. 0 \<le> i \<and> i < jobs_per_producer example_globals \<longrightarrow>
      space_wait (example_schedule\<lparr>space_wait := (\<lambda>i. 0)\<rparr>) i = 0"
    by simp
  from producer_exhaustion_or_timeout [OF a example_globals_inv, of example_schedule 1]
  obtain evs g' where run: "producer example_schedule 1 example_globals = Inr (evs, g')"
    and tmo: "\<forall>k. 0 \<le> k \<and> k < jobs_per_producer example_globals \<and>
        space_wait example_schedule k \<noteq> 0 \<and>
        (\<forall>i. 0 \<le> i \<and> i < k \<longrightarrow> space_wait example_schedule i = 0) \<longrightarrow>
        (\<exists>pre. evs = pre @ [SemTimedWait space 20 (space_wait example_schedule k),
                             Printf (ProducerTimeout 1)]) \<and>
        length (filter is_deposit_event evs) = nat k \<and>
        Printf (ProducerNoMoreJobs 1) \<notin> set evs"
    by (elim exE conjE)
  from tmo [rule_format, OF k]
  have "(\<exists>pre. evs = pre @ [SemTimedWait space 20 (- 1), Printf (ProducerTimeout 1)]) \<and>
      length (filter is_deposit_event evs) = 2 \<and>
      Printf (ProducerNoMoreJobs 1) \<notin> set evs"
    by (simp add: w2)
  with run have first: "\<exists>evs g'.
      producer example_schedule 1 example_globals = Inr (evs, g') \<and>
      (\<exists>pre. evs = pre @ [SemTimedWait space 20 (- 1), Printf (ProducerTimeout 1)]) \<and>
      length (filter is_deposit_event evs) = 2 \<and>
      Printf (ProducerNoMoreJobs 1) \<notin> set evs"
    by blast
  from producer_exhaustion_or_timeout [OF a example_globals_inv,
      of "example_schedule\<lparr>space_wait := (\<lambda>i. 0)\<rparr>" 1]
  obtain evs2 g2 where
    run2: "producer (example_schedule\<lparr>space_wait := (\<lambda>i. 0)\<rparr>) 1 example_globals = Inr (evs2, g2)"
    and iff2: "Printf (ProducerNoMoreJobs 1) \<in> set evs2 \<longleftrightarrow>
      (\<forall>i. 0 \<le> i \<and> i < jobs_per_producer example_globals \<longrightarrow>
           space_wait (example_schedule\<lparr>space_wait := (\<lambda>i. 0)\<rparr>) i = 0)"
    by (elim exE conjE)
  from iff2 quiet have "Printf (ProducerNoMoreJobs 1) \<in> set evs2"
    by (rule iffD2)
  with run2 have second: "\<exists>evs g'.
      producer (example_schedule\<lparr>space_wait := (\<lambda>i. 0)\<rparr>) 1 example_globals = Inr (evs, g') \<and>
      Printf (ProducerNoMoreJobs 1) \<in> set evs"
    by blast
  show ?thesis
    by (rule conjI [OF a(1) conjI [OF a(2) conjI [OF example_globals_inv
          conjI [OF n conjI [OF w(1) conjI [OF w(2) conjI [OF w(3)
          conjI [OF first conjI [OF quiet4 second]]]]]]]]])
qed

end
